theory Spec2Isabelle
  imports Main "HOL-Library.Word"
begin

unbundle bit_operations_syntax

section \<open>Data model\<close>

text \<open>
  Go's fixed-width unsigned integers are words of the same width; a byte slice is a list
  of bytes.  The slice lengths of Go are values of type \<open>int\<close> (below \<open>2 ^ 63\<close>); HOL
  lists have no such bound, so the theorems that depend on it state it.
\<close>

type_synonym byte = "8 word"
type_synonym uint16 = "16 word"
type_synonym uint32 = "32 word"
type_synonym uint64 = "64 word"

text \<open>
  A byte slice that is handed over for deserialization has, beside its bytes, a capacity:
  its backing array may go on beyond its length.  \<open>spare\<close> holds the bytes of the backing
  array between the length and the capacity of the slice (none for a slice whose capacity
  is its length).  A slice expression \<open>b[i:j]\<close> of Go is bounded by the capacity of
  \<open>b\<close>, not by its length; \<open>backing\<close> is what such an expression can reach.
\<close>

datatype byte_slice = Slice (bytes: "byte list") (spare: "byte list")

definition backing :: "byte_slice \<Rightarrow> byte list" where
  "backing b = bytes b @ spare b"

text \<open>The ways in which the modelled code can fail.\<close>

datatype error = IndexOutOfRange | DivideByZero | SliceBoundsOutOfRange | IOError

text \<open>
  The first three are run-time panics.  \<open>IOError\<close> is the one non-nil \<open>error\<close> value
  the modelled code can return to its caller: the error of the underlying stream, passed
  on by \<open>Read\<close>, \<open>ReadIndexer\<close> and the \<open>Write\<close> methods.
\<close>

definition is_panic :: "error \<Rightarrow> bool" where
  "is_panic e = (e \<noteq> IOError)"

text \<open>\<open>type Indexer struct { r []uint64; indices []uint16 }\<close> (indexer.go).\<close>

record Indexer =
  r :: "uint64 list"
  indices :: "uint16 list"

text \<open>\<open>type CHD struct { Indexer Indexer; keys [][]byte; values [][]byte }\<close>.\<close>

record CHD =
  Indexer :: Indexer
  keys :: "byte list list"
  "values" :: "byte list list"

text \<open>\<open>xs[i]\<close> with Go's bounds check.\<close>

definition index_checked :: "'a list \<Rightarrow> nat \<Rightarrow> error + 'a" where
  "index_checked xs i = (if i < length xs then Inr (xs ! i) else Inl IndexOutOfRange)"

section \<open>Hasher\<close>

text \<open>
  \<open>func hasher(data []byte) uint64\<close>: the loop over the bytes, with the accumulator
  \<open>hash\<close> as the first argument of the recursion.
\<close>

fun hasher_loop :: "uint64 \<Rightarrow> byte list \<Rightarrow> uint64" where
  "hasher_loop hash [] = hash"
| "hasher_loop hash (c # data) = hasher_loop ((hash XOR ucast c) * 1099511628211) data"

definition hasher :: "byte list \<Rightarrow> uint64" where
  "hasher data = hasher_loop 14695981039346656037 data"

text \<open>
  FNV-1a as the specification words it, on natural numbers with the 64-bit wrap-around
  written out: start at the offset basis; for each byte, XOR it into the accumulator, then
  multiply by the prime, modulo \<open>2 ^ 64\<close>.
\<close>

fun fnv1a_steps :: "nat \<Rightarrow> nat list \<Rightarrow> nat" where
  "fnv1a_steps acc [] = acc"
| "fnv1a_steps acc (b # bs) = fnv1a_steps (((acc XOR b) * 1099511628211) mod 2 ^ 64) bs"

definition fnv1a_64 :: "nat list \<Rightarrow> nat" where
  "fnv1a_64 bs = fnv1a_steps 14695981039346656037 bs"

section \<open>Lookup\<close>

text \<open>
  \<open>func (c *Indexer) Get(key []byte, numKeys int) uint64\<close>.  Each indexing and each
  \<open>%\<close> of the source is a possible panic; \<open>uint16(len(c.r))\<close> and
  \<open>uint64(numKeys)\<close> are the conversions of the source.
\<close>

definition Indexer_Get :: "Indexer \<Rightarrow> byte list \<Rightarrow> int \<Rightarrow> error + uint64" where
  "Indexer_Get c key numKeys =
     (case index_checked (r c) 0 of Inl e \<Rightarrow> Inl e | Inr r0 \<Rightarrow>
      let h = hasher key XOR r0 in
      if (of_nat (length (indices c)) :: uint64) = 0 then Inl DivideByZero else
      let i = h mod of_nat (length (indices c)) in
      (case index_checked (indices c) (unat i) of Inl e \<Rightarrow> Inl e | Inr ri \<Rightarrow>
       if ri \<ge> (of_nat (length (r c)) :: uint16) then Inr 0 else
       (case index_checked (r c) (unat ri) of Inl e \<Rightarrow> Inl e | Inr rv \<Rightarrow>
        if (of_int numKeys :: uint64) = 0 then Inl DivideByZero
        else Inr ((h XOR rv) mod of_int numKeys))))"

text \<open>\<open>bytes.Compare\<close>: the lexicographic comparison of two byte slices.\<close>

fun bytes_Compare :: "byte list \<Rightarrow> byte list \<Rightarrow> int" where
  "bytes_Compare [] [] = 0"
| "bytes_Compare [] (y # ys) = - 1"
| "bytes_Compare (x # xs) [] = 1"
| "bytes_Compare (x # xs) (y # ys) =
     (if x < y then - 1 else if y < x then 1 else bytes_Compare xs ys)"

text \<open>
  \<open>func (c *CHD) Get(key []byte) []byte\<close>.  The result \<open>None\<close> is the \<open>nil\<close> the
  source returns for a key that is not stored; \<open>Some v\<close> is the stored slice.  (Stored
  values are byte lists: a value stored as a \<open>nil\<close> slice is not told apart from the
  empty one.)
\<close>

definition CHD_Get :: "CHD \<Rightarrow> byte list \<Rightarrow> error + byte list option" where
  "CHD_Get c key =
     (case Indexer_Get (Indexer c) key (int (length (keys c))) of Inl e \<Rightarrow> Inl e | Inr ti \<Rightarrow>
      (case index_checked (keys c) (unat ti) of Inl e \<Rightarrow> Inl e | Inr k \<Rightarrow>
       if bytes_Compare k key \<noteq> 0 then Inr None else
       (case index_checked (values c) (unat ti) of Inl e \<Rightarrow> Inl e | Inr v \<Rightarrow> Inr (Some v))))"

section \<open>Serialization\<close>

subsection \<open>\<open>encoding/binary\<close>, little endian\<close>

text \<open>
  \<open>binary.LittleEndian.PutUint16/32/64\<close>: byte \<open>j\<close> of the output is
  \<open>byte(v >> (8 * j))\<close>.
\<close>

definition PutUint16 :: "uint16 \<Rightarrow> byte list" where
  "PutUint16 v = [ucast v, ucast (drop_bit 8 v)]"

definition PutUint32 :: "uint32 \<Rightarrow> byte list" where
  "PutUint32 v = [ucast v, ucast (drop_bit 8 v), ucast (drop_bit 16 v), ucast (drop_bit 24 v)]"

definition PutUint64 :: "uint64 \<Rightarrow> byte list" where
  "PutUint64 v = [ucast v, ucast (drop_bit 8 v), ucast (drop_bit 16 v), ucast (drop_bit 24 v),
     ucast (drop_bit 32 v), ucast (drop_bit 40 v), ucast (drop_bit 48 v), ucast (drop_bit 56 v)]"

text \<open>
  \<open>binary.LittleEndian.Uint16/32/64\<close>: the bytes shifted into place and OR-ed.  They
  are applied to slices of exactly 2, 4 and 8 bytes.
\<close>

definition Uint16 :: "byte list \<Rightarrow> uint16" where
  "Uint16 bs = ucast (bs ! 0) OR push_bit 8 (ucast (bs ! 1))"

definition Uint32 :: "byte list \<Rightarrow> uint32" where
  "Uint32 bs = ucast (bs ! 0) OR push_bit 8 (ucast (bs ! 1)) OR push_bit 16 (ucast (bs ! 2))
     OR push_bit 24 (ucast (bs ! 3))"

definition Uint64 :: "byte list \<Rightarrow> uint64" where
  "Uint64 bs = ucast (bs ! 0) OR push_bit 8 (ucast (bs ! 1)) OR push_bit 16 (ucast (bs ! 2))
     OR push_bit 24 (ucast (bs ! 3)) OR push_bit 32 (ucast (bs ! 4))
     OR push_bit 40 (ucast (bs ! 5)) OR push_bit 48 (ucast (bs ! 6))
     OR push_bit 56 (ucast (bs ! 7))"

text \<open>
  The values the source passes to \<open>binary.Write\<close> as \<open>interface{}\<close>: a \<open>uint32\<close>,
  a \<open>[]uint64\<close> or a \<open>[]uint16\<close>.  \<open>binary.Write\<close> encodes the value (a slice
  element by element) and hands the bytes to the writer.
\<close>

datatype datum = U32 uint32 | U64s "uint64 list" | U16s "uint16 list"

fun encode :: "datum \<Rightarrow> byte list" where
  "encode (U32 v) = PutUint32 v"
| "encode (U64s vs) = concat (map PutUint64 vs)"
| "encode (U16s vs) = concat (map PutUint16 vs)"

text \<open>
  An \<open>io.Writer\<close>: the bytes written so far and, for a writer that can fail, the room
  that is left (\<open>None\<close> for a writer that takes everything, as \<open>bytes.Buffer\<close> does).
\<close>

datatype writer = Writer (written: "byte list") (room: "nat option")

definition Writer_Write :: "writer \<Rightarrow> byte list \<Rightarrow> error + writer" where
  "Writer_Write w p =
     (case room w of
        None \<Rightarrow> Inr (Writer (written w @ p) None)
      | Some n \<Rightarrow> if length p \<le> n then Inr (Writer (written w @ p) (Some (n - length p)))
                 else Inl IOError)"

definition binary_Write :: "writer \<Rightarrow> datum \<Rightarrow> error + writer" where
  "binary_Write w d = Writer_Write w (encode d)"

text \<open>
  \<open>func write(w io.Writer, nd ...interface{}) error\<close>; the closure \<open>write\<close> inside
  \<open>CHD.Write\<close> has the same body.
\<close>

fun "write" :: "writer \<Rightarrow> datum list \<Rightarrow> error + writer" where
  "write w [] = Inr w"
| "write w (d # nd) =
     (case binary_Write w d of Inl err \<Rightarrow> Inl err | Inr w' \<Rightarrow> write w' nd)"

text \<open>\<open>func (c *Indexer) Write(w io.Writer) error\<close>.\<close>

definition Indexer_Write :: "Indexer \<Rightarrow> writer \<Rightarrow> error + writer" where
  "Indexer_Write c w =
     write w [U32 (of_nat (length (r c))), U64s (r c),
              U32 (of_nat (length (indices c))), U16s (indices c)]"

text \<open>
  \<open>func (c *CHD) Write(w io.Writer) error\<close>.  The loop \<open>for i := range c.keys\<close> reads
  \<open>c.values[i]\<close>, a panic where \<open>values\<close> is the shorter slice.
\<close>

function CHD_Write_loop :: "CHD \<Rightarrow> nat \<Rightarrow> writer \<Rightarrow> error + writer" where
  "CHD_Write_loop c i w =
     (if i < length (keys c) then
        (case index_checked (values c) i of Inl e \<Rightarrow> Inl e | Inr v \<Rightarrow>
         let k = keys c ! i in
         (case write w [U32 (of_nat (length k)), U32 (of_nat (length v))] of
            Inl err \<Rightarrow> Inl err
          | Inr w1 \<Rightarrow>
            (case Writer_Write w1 k of Inl err \<Rightarrow> Inl err | Inr w2 \<Rightarrow>
             (case Writer_Write w2 v of Inl err \<Rightarrow> Inl err | Inr w3 \<Rightarrow>
              CHD_Write_loop c (Suc i) w3))))
      else Inr w)"
  by pat_completeness auto
termination
  by (relation "measure (\<lambda>(c, i, w). length (keys c) - i)") auto

declare CHD_Write_loop.simps [simp del]

definition CHD_Write :: "CHD \<Rightarrow> writer \<Rightarrow> error + writer" where
  "CHD_Write c w =
     (case write w [U32 (of_nat (length (r (Indexer c)))), U64s (r (Indexer c)),
                    U32 (of_nat (length (indices (Indexer c)))), U16s (indices (Indexer c)),
                    U32 (of_nat (length (keys c)))] of
        Inl err \<Rightarrow> Inl err
      | Inr w' \<Rightarrow> CHD_Write_loop c 0 w')"

subsection \<open>The slice reader\<close>

text \<open>
  Modelled from the spec: the type \<open>sliceReader\<close> and its methods \<open>Read\<close>,
  \<open>ReadInt\<close>, \<open>ReadUint64Array\<close> and \<open>ReadUint16Array\<close>, which \<open>Mmap\<close> and
  \<open>mmapIndexer\<close> call and whose file is not among the sources.  The spec describes a
  cursor over the byte buffer that advances by exactly the bytes consumed, a format that
  is little endian throughout with \<open>u32\<close> length prefixes, and byte ranges sliced
  directly from the backing buffer.  A read is the slice expression
  \<open>b[start:end]\<close> on the buffer \<open>b\<close> of the reader: it is bounded by the capacity of
  \<open>b\<close>, and it delivers the bytes of the backing array also where they lie beyond the
  length of \<open>b\<close>.  At every call site in the source a method returns one value and no
  \<open>error\<close>, so a read beyond the capacity has no way to come back other than the
  run-time panic of the slice expression.  The field \<open>sr_b\<close> is the backing array of the
  reader's buffer up to its capacity, \<open>sr_end\<close> the cursor.  The two array reads are
  modelled as a read of the bytes of the array, decoded little endian.  The spec has the
  index aliased over the buffer rather than sliced from it; what such an alias delivers
  for an array that begins inside the buffer and ends beyond its capacity is not stated
  there and is not settled here.
\<close>

datatype sliceReader = SliceReader (sr_b: "byte list") (sr_end: nat)

definition sliceReader_Read :: "sliceReader \<Rightarrow> uint64 \<Rightarrow> error + (byte list \<times> sliceReader)" where
  "sliceReader_Read bi n =
     (let start = sr_end bi; e = start + unat n in
      if e \<le> length (sr_b bi)
      then Inr (take (unat n) (drop start (sr_b bi)), SliceReader (sr_b bi) e)
      else Inl SliceBoundsOutOfRange)"

definition sliceReader_ReadInt :: "sliceReader \<Rightarrow> error + (uint64 \<times> sliceReader)" where
  "sliceReader_ReadInt bi =
     (case sliceReader_Read bi 4 of Inl e \<Rightarrow> Inl e
      | Inr (bs, bi') \<Rightarrow> Inr (ucast (Uint32 bs), bi'))"

text \<open>A run of bytes viewed as consecutive items of \<open>w\<close> bytes each.\<close>

fun items :: "nat \<Rightarrow> nat \<Rightarrow> byte list \<Rightarrow> byte list list" where
  "items w 0 bs = []"
| "items w (Suc n) bs = take w bs # items w n (drop w bs)"

definition sliceReader_ReadUint64Array ::
    "sliceReader \<Rightarrow> uint64 \<Rightarrow> error + (uint64 list \<times> sliceReader)" where
  "sliceReader_ReadUint64Array bi n =
     (case sliceReader_Read bi (n * 8) of Inl e \<Rightarrow> Inl e
      | Inr (bs, bi') \<Rightarrow> Inr (map Uint64 (items 8 (unat n) bs), bi'))"

definition sliceReader_ReadUint16Array ::
    "sliceReader \<Rightarrow> uint64 \<Rightarrow> error + (uint16 list \<times> sliceReader)" where
  "sliceReader_ReadUint16Array bi n =
     (case sliceReader_Read bi (n * 2) of Inl e \<Rightarrow> Inl e
      | Inr (bs, bi') \<Rightarrow> Inr (map Uint16 (items 2 (unat n) bs), bi'))"

subsection \<open>Deserialization\<close>

text \<open>
  \<open>func mmapIndexer(b []byte, bi *sliceReader) (*Indexer, error)\<close>.  The source
  returns \<open>c, nil\<close> on its only return path: the result is an index (with the reader
  as it leaves it), or a panic of one of the reads.
\<close>

definition mmapIndexer :: "byte_slice \<Rightarrow> sliceReader \<Rightarrow> error + (Indexer \<times> sliceReader)" where
  "mmapIndexer b bi =
     (case sliceReader_ReadInt bi of Inl e \<Rightarrow> Inl e | Inr (rl, bi1) \<Rightarrow>
      (case sliceReader_ReadUint64Array bi1 rl of Inl e \<Rightarrow> Inl e | Inr (rs, bi2) \<Rightarrow>
       (case sliceReader_ReadInt bi2 of Inl e \<Rightarrow> Inl e | Inr (il, bi3) \<Rightarrow>
        (case sliceReader_ReadUint16Array bi3 il of Inl e \<Rightarrow> Inl e | Inr (is, bi4) \<Rightarrow>
         Inr (\<lparr>r = rs, indices = is\<rparr>, bi4)))))"


text \<open>
  The loop of \<open>Mmap\<close>, \<open>for i := uint64(0); i < el; i++\<close>, over the slices
  \<open>c.keys\<close> and \<open>c.values\<close> that \<open>make\<close> allocated with \<open>el\<close> empty entries.
\<close>

function Mmap_loop ::
    "nat \<Rightarrow> nat \<Rightarrow> sliceReader \<Rightarrow> byte list list \<Rightarrow> byte list list
      \<Rightarrow> error + (byte list list \<times> byte list list)" where
  "Mmap_loop i el bi ks vs =
     (if i < el then
        (case sliceReader_ReadInt bi of Inl e \<Rightarrow> Inl e | Inr (kl, bi1) \<Rightarrow>
         (case sliceReader_ReadInt bi1 of Inl e \<Rightarrow> Inl e | Inr (vl, bi2) \<Rightarrow>
          (case sliceReader_Read bi2 kl of Inl e \<Rightarrow> Inl e | Inr (k, bi3) \<Rightarrow>
           (case sliceReader_Read bi3 vl of Inl e \<Rightarrow> Inl e | Inr (v, bi4) \<Rightarrow>
            Mmap_loop (Suc i) el bi4 (ks[i := k]) (vs[i := v])))))
      else Inr (ks, vs))"
  by pat_completeness auto
termination
  by (relation "measure (\<lambda>(i, el, bi, ks, vs). el - i)") auto

declare Mmap_loop.simps [simp del]

text \<open>
  \<open>func Mmap(b []byte) (*CHD, error)\<close>.  The two \<open>make([][]byte, el)\<close> have
  \<open>el < 2 ^ 32\<close>, within what the language allows; a process that runs out of memory
  there is ended by the run time, which is not modelled.
\<close>

definition Mmap :: "byte_slice \<Rightarrow> error + CHD" where
  "Mmap b =
     (case mmapIndexer b (SliceReader (backing b) 0) of
        Inl err \<Rightarrow> Inl err | Inr (idx, bi) \<Rightarrow>
      (case sliceReader_ReadInt bi of Inl e \<Rightarrow> Inl e | Inr (el, bi') \<Rightarrow>
       (case Mmap_loop 0 (unat el) bi' (replicate (unat el) []) (replicate (unat el) []) of
          Inl e \<Rightarrow> Inl e
        | Inr (ks, vs) \<Rightarrow> Inr \<lparr>Indexer = idx, keys = ks, values = vs\<rparr>)))"

text \<open>
  An \<open>io.Reader\<close> under \<open>ioutil.ReadAll\<close>: the chunks its successive reads deliver,
  whether the stream ends in an error instead of \<open>io.EOF\<close>, and \<open>slack\<close>, the bytes
  that are left in the buffer of \<open>ReadAll\<close> behind the bytes delivered.
  \<open>ioutil.ReadAll\<close> starts with a buffer of capacity 512, reads into its free part,
  grows it as \<open>append\<close> does, and returns the slice of the bytes read: the rest of the
  buffer stays behind it as spare capacity.
\<close>

datatype reader = Reader (chunks: "byte list list") (broken: bool) (slack: "byte list")

fun ReadAll_loop :: "byte list \<Rightarrow> byte list list \<Rightarrow> bool \<Rightarrow> error + byte list" where
  "ReadAll_loop buf [] fails = (if fails then Inl IOError else Inr buf)"
| "ReadAll_loop buf (c # cs) fails = ReadAll_loop (buf @ c) cs fails"

definition ReadAll :: "reader \<Rightarrow> error + byte_slice" where
  "ReadAll rd =
     (case ReadAll_loop [] (chunks rd) (broken rd) of
        Inl err \<Rightarrow> Inl err | Inr buf \<Rightarrow> Inr (Slice buf (slack rd)))"

text \<open>\<open>func Read(r io.Reader) (*CHD, error)\<close>.\<close>

definition Read :: "reader \<Rightarrow> error + CHD" where
  "Read rd = (case ReadAll rd of Inl err \<Rightarrow> Inl err | Inr b \<Rightarrow> Mmap b)"


subsection \<open>The byte layout\<close>

text \<open>
  The binary format as the specification words it.  A field of \<open>w\<close> bytes holds a
  number in little-endian order: byte \<open>j\<close> is digit \<open>j\<close> of the number in base 256.
  (A number that does not fit into the field leaves its low \<open>w\<close> digits there.)
\<close>

definition le_bytes :: "nat \<Rightarrow> nat \<Rightarrow> byte list" where
  "le_bytes w n = map (\<lambda>j. of_nat ((n div 256 ^ j) mod 256)) [0..<w]"

text \<open>Indexer block: \<open>u32 rLen | u64[rLen] | u32 indicesLen | u16[indicesLen]\<close>.\<close>

definition indexer_block :: "Indexer \<Rightarrow> byte list" where
  "indexer_block c =
     le_bytes 4 (length (r c)) @ concat (map (\<lambda>x. le_bytes 8 (unat x)) (r c)) @
     le_bytes 4 (length (indices c)) @ concat (map (\<lambda>x. le_bytes 2 (unat x)) (indices c))"

text \<open>One entry: \<open>u32 keyLen, u32 valLen, key bytes, value bytes\<close>.\<close>

definition entry_block :: "byte list \<Rightarrow> byte list \<Rightarrow> byte list" where
  "entry_block k v = le_bytes 4 (length k) @ le_bytes 4 (length v) @ k @ v"

text \<open>Table block: the indexer block, \<open>u32 n\<close>, and the \<open>n\<close> entries in slot order.\<close>

definition table_block :: "CHD \<Rightarrow> byte list" where
  "table_block c =
     indexer_block (Indexer c) @ le_bytes 4 (length (keys c)) @
     concat (map2 entry_block (keys c) (values c))"

text \<open>The bytes of the buffer that a slice reader has not consumed yet.\<close>

definition unread :: "sliceReader \<Rightarrow> byte list" where
  "unread bi = drop (sr_end bi) (sr_b bi)"


section \<open>Builder\<close>

text \<open>
  Modelled from the spec: the builder (\<open>Builder\<close>, \<open>Add\<close>, \<open>Build\<close>), whose file is not
  among the sources; only the tests call it.  The definitions follow section 4.2 of the
  specification step by step.  What the specification leaves to the implementer is a
  parameter: the bucket count \<open>m\<close>, the primary seed \<open>r[0]\<close>, and the freshly generated
  seeds in the order in which the generator delivers them; their number is the bound on
  the retries, and a search that runs out of them, or that would need a selector beyond
  the 16-bit ceiling, is the construction failure (\<open>None\<close>).
\<close>

record builder_config =
  bucket_count :: nat
  primary_seed :: uint64
  fresh_seeds :: "uint64 list"

type_synonym pair = "byte list \<times> byte list"

text \<open>Step 2: \<open>b = (hash(key) XOR r[0]) mod m\<close>.\<close>

definition bucket_of :: "uint64 \<Rightarrow> nat \<Rightarrow> byte list \<Rightarrow> nat" where
  "bucket_of r0 m key = unat (hasher key XOR r0) mod m"

text \<open>
  Step 4: the slot of a key under the seed \<open>r[ri]\<close>.  The specification writes it
  \<open>(hash(k) XOR r[ri]) mod n\<close>; the hash in it is the \<open>h = hash(key) XOR r[0]\<close> of the
  lookup (section 4.3, \<open>Indexer.Get\<close> in the source), so that \<open>keys[i]\<close> is "the entry
  assigned to slot \<open>i\<close> by the Indexer" (section 3) and the table answers \<open>Get\<close> for
  the keys it was built from, as \<open>TestCHDBuilder\<close> asserts.
\<close>

definition slot_of :: "uint64 \<Rightarrow> uint64 \<Rightarrow> nat \<Rightarrow> byte list \<Rightarrow> nat" where
  "slot_of r0 seed n key = unat ((hasher key XOR r0) XOR seed) mod n"

text \<open>
  Step 4, the test of one seed for one bucket: every key of the bucket goes to a slot that
  (a) no previously placed key occupies and (b) no other key of the bucket goes to.
\<close>

definition fits :: "pair option list \<Rightarrow> uint64 \<Rightarrow> uint64 \<Rightarrow> pair list \<Rightarrow> bool" where
  "fits slots r0 seed bucket =
     (distinct (map (\<lambda>kv. slot_of r0 seed (length slots) (fst kv)) bucket) \<and>
      list_all (\<lambda>kv. slots ! slot_of r0 seed (length slots) (fst kv) = None) bucket)"

text \<open>Steps 4 and 6: mark the slots taken, with \<open>keys[slot] = key\<close>, \<open>values[slot] = value\<close>.\<close>

fun place :: "uint64 \<Rightarrow> uint64 \<Rightarrow> pair list \<Rightarrow> pair option list \<Rightarrow> pair option list" where
  "place r0 seed [] slots = slots"
| "place r0 seed (kv # bucket) slots =
     place r0 seed bucket (slots[slot_of r0 seed (length slots) (fst kv) := Some kv])"

text \<open>
  Step 4, the search.  First over the displacement seeds that \<open>r\<close> holds already, from
  selector \<open>ri\<close> on (the list is the rest of \<open>r\<close> from there); then over fresh seeds,
  each appended to \<open>r\<close> before it is tried.  Selector \<open>0xFFFF\<close> is the sentinel, so a
  selector stays below 65535.
\<close>

fun search_table ::
    "pair option list \<Rightarrow> uint64 \<Rightarrow> pair list \<Rightarrow> uint64 list \<Rightarrow> nat \<Rightarrow> nat option" where
  "search_table slots r0 bucket [] ri = None"
| "search_table slots r0 bucket (seed # seeds) ri =
     (if 65535 \<le> ri then None
      else if fits slots r0 seed bucket then Some ri
      else search_table slots r0 bucket seeds (Suc ri))"

fun search_fresh ::
    "pair option list \<Rightarrow> uint64 \<Rightarrow> pair list \<Rightarrow> uint64 list \<Rightarrow> uint64 list
      \<Rightarrow> (nat \<times> uint64 list \<times> uint64 list) option" where
  "search_fresh slots r0 bucket rs [] = None"
| "search_fresh slots r0 bucket rs (seed # fresh) =
     (if 65535 \<le> length rs then None
      else if fits slots r0 seed bucket then Some (length rs, rs @ [seed], fresh)
      else search_fresh slots r0 bucket (rs @ [seed]) fresh)"

text \<open>The state of the construction: \<open>r\<close>, \<open>indices\<close>, the slots, the unused fresh seeds.\<close>

record build_state =
  bs_r :: "uint64 list"
  bs_indices :: "uint16 list"
  bs_slots :: "pair option list"
  bs_fresh :: "uint64 list"

text \<open>
  Steps 4 and 5 for one bucket \<open>b\<close>: a bucket without keys keeps the sentinel; for the
  others the selector found is recorded in \<open>indices[b]\<close> and the keys are placed.
\<close>

definition place_bucket :: "build_state \<Rightarrow> nat \<times> pair list \<Rightarrow> build_state option" where
  "place_bucket st bb =
     (if snd bb = [] then Some st
      else case search_table (bs_slots st) (bs_r st ! 0) (snd bb) (drop 1 (bs_r st)) 1 of
        Some ri \<Rightarrow>
          Some (st\<lparr>bs_indices := (bs_indices st)[fst bb := of_nat ri],
                   bs_slots := place (bs_r st ! 0) (bs_r st ! ri) (snd bb) (bs_slots st)\<rparr>)
      | None \<Rightarrow>
          (case search_fresh (bs_slots st) (bs_r st ! 0) (snd bb) (bs_r st) (bs_fresh st) of
             None \<Rightarrow> None
           | Some (ri, rs, fresh) \<Rightarrow>
               Some \<lparr>bs_r = rs, bs_indices = (bs_indices st)[fst bb := of_nat ri],
                     bs_slots = place (bs_r st ! 0) (rs ! ri) (snd bb) (bs_slots st),
                     bs_fresh = fresh\<rparr>))"

fun place_buckets :: "build_state \<Rightarrow> (nat \<times> pair list) list \<Rightarrow> build_state option" where
  "place_buckets st [] = Some st"
| "place_buckets st (bb # bbs) =
     (case place_bucket st bb of None \<Rightarrow> None | Some st' \<Rightarrow> place_buckets st' bbs)"

text \<open>Steps 2 and 3: the buckets with their keys, largest first.\<close>

definition buckets_by_size :: "uint64 \<Rightarrow> nat \<Rightarrow> pair list \<Rightarrow> (nat \<times> pair list) list" where
  "buckets_by_size r0 m pairs =
     rev (sort_key (\<lambda>bb. length (snd bb))
       (map (\<lambda>b. (b, filter (\<lambda>kv. bucket_of r0 m (fst kv) = b) pairs)) [0..<m]))"

text \<open>Step 6: a slot that no key was placed in is left empty.\<close>

definition slot_key :: "pair option \<Rightarrow> byte list" where
  "slot_key s = (case s of None \<Rightarrow> [] | Some kv \<Rightarrow> fst kv)"

definition slot_value :: "pair option \<Rightarrow> byte list" where
  "slot_value s = (case s of None \<Rightarrow> [] | Some kv \<Rightarrow> snd kv)"

text \<open>
  \<open>Build\<close>, on the pairs added so far.  Step 1: \<open>n\<close> is the number of distinct keys,
  and no key gives the empty table.
\<close>

definition Build :: "builder_config \<Rightarrow> pair list \<Rightarrow> CHD option" where
  "Build cfg pairs =
     (let n = length (remdups (map fst pairs)) in
      if n = 0 then Some \<lparr>Indexer = \<lparr>r = [], indices = []\<rparr>, keys = [], values = []\<rparr>
      else
        case place_buckets
               \<lparr>bs_r = [primary_seed cfg],
                bs_indices = replicate (bucket_count cfg) 65535,
                bs_slots = replicate n None,
                bs_fresh = fresh_seeds cfg\<rparr>
               (buckets_by_size (primary_seed cfg) (bucket_count cfg) pairs) of
          None \<Rightarrow> None
        | Some st \<Rightarrow>
            Some \<lparr>Indexer = \<lparr>r = bs_r st, indices = bs_indices st\<rparr>,
                  keys = map slot_key (bs_slots st),
                  values = map slot_value (bs_slots st)\<rparr>)"

text \<open>
  The selector the index holds for a key, and the slot the builder gave the key under it.
\<close>

definition selector_of :: "Indexer \<Rightarrow> byte list \<Rightarrow> nat" where
  "selector_of c key = unat (indices c ! bucket_of (r c ! 0) (length (indices c)) key)"

definition built_slot :: "Indexer \<Rightarrow> nat \<Rightarrow> byte list \<Rightarrow> nat" where
  "built_slot c n key = slot_of (r c ! 0) (r c ! selector_of c key) n key"

text \<open>
  The slot that \<open>Indexer.Get\<close> returns for a key, as a number; \<open>n\<close>, which is no slot,
  where it fails.
\<close>

definition lookup_slot :: "Indexer \<Rightarrow> nat \<Rightarrow> byte list \<Rightarrow> nat" where
  "lookup_slot c n key = (case Indexer_Get c key (int n) of Inl e \<Rightarrow> n | Inr s \<Rightarrow> unat s)"

text \<open>
  The invariant of the construction.  The state has its shape: \<open>n\<close> slots, \<open>m\<close>
  selectors, and a table \<open>r\<close> of at most 65535 seeds that starts with the primary seed.
  And every pair of the buckets in \<open>S\<close> is placed: the selector of its bucket is a
  displacement seed of \<open>r\<close>, and the slot this seed gives the key holds the pair.
\<close>

definition shaped :: "uint64 \<Rightarrow> nat \<Rightarrow> nat \<Rightarrow> build_state \<Rightarrow> bool" where
  "shaped r0 m n st \<longleftrightarrow>
     length (bs_slots st) = n \<and> length (bs_indices st) = m \<and> bs_r st \<noteq> [] \<and>
     length (bs_r st) \<le> 65535 \<and> bs_r st ! 0 = r0"

definition placed :: "nat \<Rightarrow> build_state \<Rightarrow> (nat \<times> pair list) set \<Rightarrow> bool" where
  "placed n st S \<longleftrightarrow>
     (\<forall>bb \<in> S. \<forall>kv \<in> set (snd bb). \<exists>ri.
        bs_indices st ! fst bb = of_nat ri \<and> 0 < ri \<and> ri < length (bs_r st) \<and>
        bs_slots st ! slot_of (bs_r st ! 0) (bs_r st ! ri) n (fst kv) = Some kv)"

section \<open>Properties of the hasher\<close>

lemma unat_ucast_byte: "unat (ucast (c :: byte) :: uint64) = unat c"
  by (simp add: unsigned_ucast_eq take_bit_nat_eq_self_iff)
    (rule less_trans [OF unsigned_less], simp)

lemma unat_hasher_step:
  "unat ((h XOR ucast (c :: byte)) * (1099511628211 :: uint64)) =
     ((unat h XOR unat c) * 1099511628211) mod 2 ^ 64"
  by (simp add: unat_word_ariths unsigned_xor_eq unat_ucast_byte)

lemma unat_hasher_loop:
  "unat (hasher_loop h data) = fnv1a_steps (unat h) (map unat data)"
  by (induction data arbitrary: h) (simp_all add: unat_hasher_step)

text \<open>
  Claim C7.  For every byte string, \<open>hasher\<close> is 64-bit FNV-1a: read as a natural
  number, its result is the accumulator that starts at 14695981039346656037 and, for each
  byte in order, is XOR-ed with the byte and then multiplied by 1099511628211 modulo
  \<open>2 ^ 64\<close>.  Being a function of its argument alone, it is deterministic and pure.
\<close>

theorem hasher_is_fnv1a_64: "unat (hasher data) = fnv1a_64 (map unat data)"
  by (simp add: hasher_def fnv1a_64_def unat_hasher_loop)

section \<open>Properties of the lookup\<close>

lemma bytes_Compare_eq: "bytes_Compare a b = 0 \<longleftrightarrow> a = b"
  by (induction a b rule: bytes_Compare.induct) auto

lemma unat_of_nat_len64: "n < 2 ^ 63 \<Longrightarrow> unat (of_nat n :: uint64) = n"
  by (simp add: unat_of_nat)

lemma of_nat_len64_eq_0: "n < 2 ^ 63 \<Longrightarrow> (of_nat n :: uint64) = 0 \<longleftrightarrow> n = 0"
proof
  assume n: "n < 2 ^ 63" and "(of_nat n :: uint64) = 0"
  then have "unat (of_nat n :: uint64) = 0" by simp
  with n show "n = 0" by (simp add: unat_of_nat_len64)
qed simp

lemma unat_of_nat16_le: "unat (of_nat n :: uint16) \<le> n"
  by (simp add: unat_of_nat)

lemma unat_of_int_len64: "0 \<le> n \<Longrightarrow> n < 2 ^ 63 \<Longrightarrow> unat (of_int n :: uint64) = nat n"
  unfolding unat_eq_nat_uint by (simp add: uint_word_of_int)

lemma of_int_len64_neq_0: "1 \<le> n \<Longrightarrow> n < 2 ^ 63 \<Longrightarrow> (of_int n :: uint64) \<noteq> 0"
proof
  assume n: "1 \<le> n" "n < 2 ^ 63" and "(of_int n :: uint64) = 0"
  then have "unat (of_int n :: uint64) = 0" by simp
  with n show False by (simp add: unat_of_int_len64)
qed

text \<open>
  \<open>Indexer.Get\<close> on an index whose \<open>r\<close> and \<open>indices\<close> are not empty: the two
  checked reads of \<open>r\<close> and the read of \<open>indices\<close> are in range, and what is left is
  the test on the selector and the division by \<open>numKeys\<close>.
\<close>

lemma Indexer_Get_eval:
  assumes r: "r c \<noteq> []" and i0: "indices c \<noteq> []" and il: "length (indices c) < 2 ^ 63"
  shows "Indexer_Get c key numKeys =
     (let h = hasher key XOR r c ! 0;
          ri = indices c ! (unat h mod length (indices c))
      in if (of_nat (length (r c)) :: uint16) \<le> ri then Inr 0
         else if (of_int numKeys :: uint64) = 0 then Inl DivideByZero
         else Inr ((h XOR r c ! unat ri) mod of_int numKeys))"
proof -
  let ?h = "hasher key XOR r c ! 0"
  let ?m = "of_nat (length (indices c)) :: uint64"
  have m0: "?m \<noteq> 0" using i0 il by (simp add: of_nat_len64_eq_0)
  have um: "unat ?m = length (indices c)" using il by (rule unat_of_nat_len64)
  have ui: "unat (?h mod ?m) = unat ?h mod length (indices c)"
    by (simp add: unat_mod um)
  have lt: "unat ?h mod length (indices c) < length (indices c)"
    using i0 by simp
  have ri: "\<not> (of_nat (length (r c)) :: uint16) \<le> x \<Longrightarrow> unat x < length (r c)" for x
    using unat_of_nat16_le [of "length (r c)"] by (simp add: word_le_nat_alt)
  show ?thesis
    using r m0 lt ri
    by (simp add: Indexer_Get_def index_checked_def Let_def ui)
qed

lemma Indexer_Get_in_range:
  assumes "r c \<noteq> []" and "indices c \<noteq> []" and "length (indices c) < 2 ^ 63"
    and n: "1 \<le> n" "n < 2 ^ 63"
  shows "\<exists>slot. Indexer_Get c key n = Inr slot \<and> unat slot < nat n"
proof -
  have un: "unat (of_int n :: uint64) = nat n"
    using n by (simp add: unat_of_int_len64)
  have n0: "(of_int n :: uint64) \<noteq> 0"
    using n by (rule of_int_len64_neq_0)
  have lt: "unat (x mod (of_int n :: uint64)) < nat n" for x
    using n by (simp add: unat_mod un)
  show ?thesis
  proof (cases "(of_nat (length (r c)) :: uint16)
      \<le> indices c ! (unat (hasher key XOR r c ! 0) mod length (indices c))")
    case True
    then have "Indexer_Get c key n = Inr 0"
      by (simp add: Indexer_Get_eval [OF assms(1-3)] Let_def)
    then show ?thesis using n by simp
  next
    case False
    then have "Indexer_Get c key n = Inr (((hasher key XOR r c ! 0) XOR r c !
        unat (indices c ! (unat (hasher key XOR r c ! 0) mod length (indices c)))) mod of_int n)"
      using n0 by (simp add: Indexer_Get_eval [OF assms(1-3)] Let_def)
    then show ?thesis using lt by simp
  qed
qed

text \<open>The same for a table: with a key at every slot, \<open>CHD.Get\<close> reads in range.\<close>

lemma CHD_Get_eval:
  assumes "r (Indexer t) \<noteq> []" and "indices (Indexer t) \<noteq> []"
    and "length (indices (Indexer t)) < 2 ^ 63"
    and "1 \<le> length (keys t)" and "length (keys t) < 2 ^ 63"
    and "length (values t) = length (keys t)"
  shows "\<exists>slot. Indexer_Get (Indexer t) key (int (length (keys t))) = Inr slot \<and>
           unat slot < length (keys t) \<and>
           CHD_Get t key =
             Inr (if keys t ! unat slot = key then Some (values t ! unat slot) else None)"
proof -
  have "1 \<le> int (length (keys t))" "int (length (keys t)) < 2 ^ 63"
    using assms(4,5) by simp_all
  from Indexer_Get_in_range [OF assms(1-3) this, of key] obtain slot
    where s: "Indexer_Get (Indexer t) key (int (length (keys t))) = Inr slot"
      and lt: "unat slot < length (keys t)" by auto
  have "CHD_Get t key =
      Inr (if keys t ! unat slot = key then Some (values t ! unat slot) else None)"
    using lt assms(6) by (simp add: CHD_Get_def s index_checked_def bytes_Compare_eq)
  with s lt show ?thesis by blast
qed

lemma Indexer_Get_no_keys:
  "Indexer_Get c key 0 = Inr 0 \<or> (\<exists>e. Indexer_Get c key 0 = Inl e \<and> is_panic e)"
  by (simp add: Indexer_Get_def index_checked_def is_panic_def Let_def split: sum.splits)

text \<open>
  Claim C6.  The claim says that the empty table answers every \<open>Get\<close> with absent,
  without failure.  The code does not: on a table without keys, whatever its index holds,
  \<open>CHD.Get\<close> ends in a run-time panic for every key (reading \<open>r[0]\<close> of an empty
  \<open>r\<close>, dividing by \<open>len(indices) = 0\<close> or by \<open>numKeys = 0\<close>, or reading
  \<open>keys[0]\<close> after the selector test returned slot 0).
\<close>

theorem CHD_Get_empty_table_panics:
  "\<exists>e. CHD_Get \<lparr>Indexer = idx, keys = [], values = vs\<rparr> key = Inl e \<and> is_panic e"
  using Indexer_Get_no_keys [of idx key]
  by (auto simp add: CHD_Get_def index_checked_def is_panic_def)


text \<open>
  Claim C4, as amended.  For every index with between 1 and 65535 entries in \<open>r\<close> and
  with a non-empty \<open>indices\<close>, every key and every \<open>numKeys \<ge> 1\<close> (lengths and
  \<open>numKeys\<close> below \<open>2 ^ 63\<close>, as Go's \<open>int\<close> has them), \<open>Indexer.Get\<close> does not
  fail and returns: with \<open>h = hash(key) XOR r[0]\<close>, \<open>i = h mod len(indices)\<close> and
  \<open>ri = indices[i]\<close>, the slot 0 when \<open>ri \<ge> len(r)\<close>, and
  \<open>(h XOR r[ri]) mod numKeys\<close> otherwise.
\<close>

theorem Indexer_Get_computes:
  assumes "r c \<noteq> []" and "length (r c) < 65536"
    and "indices c \<noteq> []" and "length (indices c) < 2 ^ 63"
    and "1 \<le> numKeys" and "numKeys < 2 ^ 63"
  shows "\<exists>slot. Indexer_Get c key numKeys = Inr slot \<and>
           unat slot =
             (if length (r c)
                   \<le> unat (indices c ! (unat (hasher key XOR r c ! 0) mod length (indices c)))
              then 0
              else unat ((hasher key XOR r c ! 0)
                     XOR r c ! unat (indices c !
                           (unat (hasher key XOR r c ! 0) mod length (indices c))))
                   mod nat numKeys)"
proof -
  have len16: "unat (of_nat (length (r c)) :: uint16) = length (r c)"
    using assms(2) by (simp add: unat_of_nat)
  have le16: "(of_nat (length (r c)) :: uint16) \<le> x \<longleftrightarrow> length (r c) \<le> unat x" for x
    by (simp add: word_le_nat_alt len16)
  have unn: "unat (of_int numKeys :: uint64) = nat numKeys"
    using assms(5,6) by (simp add: unat_of_int_len64)
  have n0: "(of_int numKeys :: uint64) \<noteq> 0"
    using assms(5,6) by (rule of_int_len64_neq_0)
  show ?thesis
    using n0 by (simp add: Indexer_Get_eval [OF assms(1,3,4)] Let_def le16 unat_mod unn)
qed

theorem Indexer_Get_computes_witness:
  "r \<lparr>r = [1, 2], indices = [1, 65535]\<rparr> \<noteq> [] \<and>
   length (r \<lparr>r = [1, 2], indices = [1, 65535]\<rparr>) < 65536 \<and>
   indices \<lparr>r = [1, 2], indices = [1, 65535]\<rparr> \<noteq> [] \<and>
   length (indices \<lparr>r = [1, 2], indices = [1, 65535]\<rparr>) < 2 ^ 63 \<and>
   (1 :: int) \<le> 3 \<and> (3 :: int) < 2 ^ 63 \<and>
   (\<exists>slot. Indexer_Get \<lparr>r = [1, 2], indices = [1, 65535]\<rparr> [98] 3 = Inr slot \<and> unat slot = 2)"
proof -
  let ?c = "\<lparr>r = [1, 2], indices = [1, 65535]\<rparr>"
  have h: "r ?c \<noteq> []" "length (r ?c) < 65536" "indices ?c \<noteq> []"
    "length (indices ?c) < 2 ^ 63" "(1 :: int) \<le> 3" "(3 :: int) < 2 ^ 63"
    by simp_all
  have v: "(if length (r ?c)
                \<le> unat (indices ?c ! (unat (hasher [98] XOR r ?c ! 0) mod length (indices ?c)))
            then 0
            else unat ((hasher [98] XOR r ?c ! 0)
                   XOR r ?c ! unat (indices ?c !
                         (unat (hasher [98] XOR r ?c ! 0) mod length (indices ?c))))
                 mod nat 3) = 2"
    by (simp add: hasher_def flip: numeral_2_eq_2)
  from Indexer_Get_computes [OF h, of "[98]"] v
  have "\<exists>slot. Indexer_Get ?c [98] 3 = Inr slot \<and> unat slot = 2"
    by simp
  with h show ?thesis by simp
qed

text \<open>
  The claim as stated fails: an index without hash functions or without buckets, or a
  lookup with \<open>numKeys = 0\<close>, panics; and with 65536 entries in \<open>r\<close> the test
  \<open>ri >= uint16(len(c.r))\<close> compares with 0, so that the selector 0, which is below
  \<open>len(r)\<close>, gives slot 0 where \<open>(h XOR r[ri]) mod numKeys\<close> is 1.
\<close>

theorem Indexer_Get_counterexample:
  "Indexer_Get \<lparr>r = [], indices = []\<rparr> [] 1 = Inl IndexOutOfRange \<and>
   Indexer_Get \<lparr>r = [1], indices = []\<rparr> [] 1 = Inl DivideByZero \<and>
   Indexer_Get \<lparr>r = [1], indices = [0]\<rparr> [] 0 = Inl DivideByZero \<and>
   Indexer_Get \<lparr>r = replicate 65536 0, indices = [0]\<rparr> [] 2 = Inr 0 \<and>
   unat ([0 :: uint16] ! (unat (hasher [] XOR replicate 65536 0 ! 0) mod length [0 :: uint16]))
     < length (replicate 65536 (0 :: uint64)) \<and>
   ((hasher [] XOR replicate 65536 0 ! 0) XOR replicate 65536 0 !
       unat ([0 :: uint16] ! (unat (hasher [] XOR replicate 65536 0 ! 0) mod length [0 :: uint16])))
     mod 2 = 1"
  by (simp add: Indexer_Get_def index_checked_def hasher_def)

text \<open>
  Claim C10.  For every index with non-empty \<open>r\<close> and non-empty \<open>indices\<close> and every
  \<open>numKeys \<ge> 1\<close>, \<open>Indexer.Get\<close> returns a slot below \<open>numKeys\<close>; consequently, in
  a table over such an index with \<open>len(keys) = len(values) \<ge> 1\<close>, the reads
  \<open>keys[slot]\<close> and \<open>values[slot]\<close> of \<open>CHD.Get\<close> are in bounds for every lookup key,
  and \<open>CHD.Get\<close> returns.  (Lengths and \<open>numKeys\<close> are below \<open>2 ^ 63\<close>, as Go's
  \<open>int\<close> has them.)
\<close>

theorem Indexer_Get_slot_in_range:
  assumes "r c \<noteq> []" and "indices c \<noteq> []" and "length (indices c) < 2 ^ 63"
  shows "(1 \<le> numKeys \<and> numKeys < 2 ^ 63 \<longrightarrow>
           (\<exists>slot. Indexer_Get c key numKeys = Inr slot \<and> unat slot < nat numKeys)) \<and>
         (Indexer t = c \<and> 1 \<le> length (keys t) \<and> length (keys t) < 2 ^ 63 \<and>
            length (values t) = length (keys t) \<longrightarrow>
           (\<exists>slot k v res. Indexer_Get c key (int (length (keys t))) = Inr slot \<and>
               index_checked (keys t) (unat slot) = Inr k \<and>
               index_checked (values t) (unat slot) = Inr v \<and>
               CHD_Get t key = Inr res))"
proof (intro conjI impI)
  assume "1 \<le> numKeys \<and> numKeys < 2 ^ 63"
  then show "\<exists>slot. Indexer_Get c key numKeys = Inr slot \<and> unat slot < nat numKeys"
    using Indexer_Get_in_range [OF assms, of numKeys key] by simp
next
  assume t: "Indexer t = c \<and> 1 \<le> length (keys t) \<and> length (keys t) < 2 ^ 63 \<and>
            length (values t) = length (keys t)"
  then have "r (Indexer t) \<noteq> []" "indices (Indexer t) \<noteq> []"
    "length (indices (Indexer t)) < 2 ^ 63" "1 \<le> length (keys t)" "length (keys t) < 2 ^ 63"
    "length (values t) = length (keys t)"
    using assms by simp_all
  from CHD_Get_eval [OF this, of key] obtain slot
    where "Indexer_Get (Indexer t) key (int (length (keys t))) = Inr slot"
      and "unat slot < length (keys t)"
      and "CHD_Get t key =
             Inr (if keys t ! unat slot = key then Some (values t ! unat slot) else None)"
    by auto
  then show "\<exists>slot k v res. Indexer_Get c key (int (length (keys t))) = Inr slot \<and>
               index_checked (keys t) (unat slot) = Inr k \<and>
               index_checked (values t) (unat slot) = Inr v \<and>
               CHD_Get t key = Inr res"
    using t by (simp add: index_checked_def)
qed

theorem Indexer_Get_slot_in_range_witness:
  "r \<lparr>r = [1, 2], indices = [1, 65535]\<rparr> \<noteq> [] \<and>
   indices \<lparr>r = [1, 2], indices = [1, 65535]\<rparr> \<noteq> [] \<and>
   length (indices \<lparr>r = [1, 2], indices = [1, 65535]\<rparr>) < 2 ^ 63 \<and>
   (1 :: int) \<le> 3 \<and> (3 :: int) < 2 ^ 63 \<and>
   (\<exists>slot. Indexer_Get \<lparr>r = [1, 2], indices = [1, 65535]\<rparr> [100] 3 = Inr slot
      \<and> unat slot < nat 3) \<and>
   Indexer \<lparr>Indexer = \<lparr>r = [1, 2], indices = [1, 65535]\<rparr>,
       keys = [[99], [100], [98]], values = [[1], [2], [3]]\<rparr>
     = \<lparr>r = [1, 2], indices = [1, 65535]\<rparr> \<and>
   (1 :: nat) \<le> length [[99], [100], [98 :: byte]] \<and>
   (\<exists>res. CHD_Get \<lparr>Indexer = \<lparr>r = [1, 2], indices = [1, 65535]\<rparr>,
       keys = [[99], [100], [98]], values = [[1], [2], [3]]\<rparr> [100] = Inr res)"
proof -
  let ?c = "\<lparr>r = [1, 2], indices = [1, 65535]\<rparr>"
  let ?t = "\<lparr>Indexer = ?c, keys = [[99], [100], [98]], values = [[1], [2], [3]]\<rparr>"
  have h: "r ?c \<noteq> []" "indices ?c \<noteq> []" "length (indices ?c) < 2 ^ 63"
    by simp_all
  have n: "(1 :: int) \<le> 3 \<and> (3 :: int) < 2 ^ 63"
    by simp
  have t: "Indexer ?t = ?c \<and> 1 \<le> length (keys ?t) \<and> length (keys ?t) < 2 ^ 63 \<and>
      length (values ?t) = length (keys ?t)"
    by simp
  from Indexer_Get_slot_in_range [OF h, of 3 "[100]" ?t] n t
  have "(\<exists>slot. Indexer_Get ?c [100] 3 = Inr slot \<and> unat slot < nat 3) \<and>
      (\<exists>res. CHD_Get ?t [100] = Inr res)"
    by blast
  with h show ?thesis by simp
qed

text \<open>
  Claim C3, as amended.  For every table with non-empty \<open>r\<close> and \<open>indices\<close> and with
  at least one key (and \<open>len(values) = len(keys)\<close>, the invariant of the data model),
  and for every key, \<open>CHD.Get\<close> returns
  \<open>values[slot]\<close>, where \<open>slot = Indexer.Get(key, len(keys))\<close>, if \<open>keys[slot]\<close>
  equals the key byte for byte, and absent otherwise; in particular it returns absent for
  every key that is not among the stored keys.
\<close>

theorem CHD_Get_checks_stored_key:
  assumes "r (Indexer t) \<noteq> []" and "indices (Indexer t) \<noteq> []"
    and "length (indices (Indexer t)) < 2 ^ 63"
    and "1 \<le> length (keys t)" and "length (keys t) < 2 ^ 63"
    and "length (values t) = length (keys t)"
  shows "(\<exists>slot. Indexer_Get (Indexer t) key (int (length (keys t))) = Inr slot \<and>
            unat slot < length (keys t) \<and>
            CHD_Get t key =
              Inr (if keys t ! unat slot = key then Some (values t ! unat slot) else None)) \<and>
         (key \<notin> set (keys t) \<longrightarrow> CHD_Get t key = Inr None)"
proof -
  from CHD_Get_eval [OF assms, of key] obtain slot
    where s: "Indexer_Get (Indexer t) key (int (length (keys t))) = Inr slot"
      and lt: "unat slot < length (keys t)"
      and g: "CHD_Get t key =
             Inr (if keys t ! unat slot = key then Some (values t ! unat slot) else None)"
    by auto
  have "CHD_Get t key = Inr None" if "key \<notin> set (keys t)"
  proof -
    from lt have "keys t ! unat slot \<in> set (keys t)" by (rule nth_mem)
    with that have "keys t ! unat slot \<noteq> key" by auto
    with g show ?thesis by simp
  qed
  with s lt g show ?thesis by blast
qed

theorem CHD_Get_checks_stored_key_witness:
  "CHD_Get \<lparr>Indexer = \<lparr>r = [1, 2], indices = [1, 65535]\<rparr>,
       keys = [[99], [100], [98]], values = [[1], [2], [3]]\<rparr> [98] = Inr (Some [3]) \<and>
   [97] \<notin> set (keys \<lparr>Indexer = \<lparr>r = [1, 2], indices = [1, 65535]\<rparr>,
       keys = [[99], [100], [98]], values = [[1], [2], [3]]\<rparr>) \<and>
   CHD_Get \<lparr>Indexer = \<lparr>r = [1, 2], indices = [1, 65535]\<rparr>,
       keys = [[99], [100], [98]], values = [[1], [2], [3]]\<rparr> [97] = Inr None"
proof -
  let ?t = "\<lparr>Indexer = \<lparr>r = [1, 2], indices = [1, 65535]\<rparr>,
       keys = [[99], [100], [98]], values = [[1], [2], [3]]\<rparr>"
  have h: "r (Indexer ?t) \<noteq> []" "indices (Indexer ?t) \<noteq> []"
    "length (indices (Indexer ?t)) < 2 ^ 63" "1 \<le> length (keys ?t)"
    "length (keys ?t) < 2 ^ 63" "length (values ?t) = length (keys ?t)"
    by simp_all
  have absent: "[97] \<notin> set (keys ?t)"
    by simp
  have slot: "Indexer_Get (Indexer ?t) [98] (int (length (keys ?t))) = Inr 2"
    by (simp add: Indexer_Get_def index_checked_def hasher_def word_le_nat_alt)
  from CHD_Get_checks_stored_key [OF h, of "[98]"] slot
  have "CHD_Get ?t [98] = Inr (Some [3])"
    by simp
  moreover from CHD_Get_checks_stored_key [OF h, of "[97]"] absent
  have "CHD_Get ?t [97] = Inr None"
    by blast
  ultimately show ?thesis using absent by simp
qed

text \<open>
  The claim as stated fails on tables that \<open>Mmap\<close> returns: on a table with a key but
  without hash functions and buckets, and on a table without keys, \<open>CHD.Get\<close> panics.
\<close>

theorem CHD_Get_counterexample:
  "CHD_Get \<lparr>Indexer = \<lparr>r = [], indices = []\<rparr>, keys = [[107]], values = [[118]]\<rparr> [107]
     = Inl IndexOutOfRange \<and>
   CHD_Get \<lparr>Indexer = \<lparr>r = [1], indices = [0]\<rparr>, keys = [], values = []\<rparr> [107]
     = Inl DivideByZero"
  by (simp add: CHD_Get_def Indexer_Get_def index_checked_def)

lemma ReadAll_loop_delivers: "ReadAll_loop buf cs False = Inr (buf @ concat cs)"
  by (induction cs arbitrary: buf) simp_all

section \<open>Properties of the serialization\<close>

lemma ucast_drop_bit_byte:
  fixes w :: "'a::len word"
  shows "(ucast (drop_bit (8 * j) w) :: byte) = of_nat ((unat w div 256 ^ j) mod 256)"
proof -
  have "unat (drop_bit (8 * j) w) = drop_bit (8 * j) (unat w)"
    by (rule unat_drop_bit_eq)
  also have "\<dots> = unat w div 256 ^ j"
    by (simp add: drop_bit_eq_div power_mult)
  finally have a: "unat (drop_bit (8 * j) w) = unat w div 256 ^ j" .
  have "(ucast (drop_bit (8 * j) w) :: byte) = of_nat (unat (drop_bit (8 * j) w))"
    by simp
  also have "\<dots> = of_nat (unat w div 256 ^ j)"
    by (simp only: a)
  also have "\<dots> = of_nat ((unat w div 256 ^ j) mod 256)"
    by (simp add: word_of_nat_eq_iff take_bit_eq_mod)
  finally show ?thesis .
qed

lemma PutUint16_le_bytes: "PutUint16 v = le_bytes 2 (unat v)"
  using ucast_drop_bit_byte [of 0 v] ucast_drop_bit_byte [of 1 v]
  by (simp add: PutUint16_def le_bytes_def upt_rec)

lemma PutUint32_le_bytes: "PutUint32 v = le_bytes 4 (unat v)"
  using ucast_drop_bit_byte [of 0 v] ucast_drop_bit_byte [of 1 v]
    ucast_drop_bit_byte [of 2 v] ucast_drop_bit_byte [of 3 v]
  by (simp add: PutUint32_def le_bytes_def upt_rec)

lemma PutUint64_le_bytes: "PutUint64 v = le_bytes 8 (unat v)"
  using ucast_drop_bit_byte [of 0 v] ucast_drop_bit_byte [of 1 v]
    ucast_drop_bit_byte [of 2 v] ucast_drop_bit_byte [of 3 v]
    ucast_drop_bit_byte [of 4 v] ucast_drop_bit_byte [of 5 v]
    ucast_drop_bit_byte [of 6 v] ucast_drop_bit_byte [of 7 v]
  by (simp add: PutUint64_def le_bytes_def upt_rec)

lemma digit_mod:
  assumes j: "j < 4"
  shows "((n mod 4294967296) div 256 ^ j) mod 256 = (n div 256 ^ j) mod (256::nat)"
proof -
  have "take_bit 8 (drop_bit (8 * j) (take_bit 32 n)) = take_bit 8 (drop_bit (8 * j) n)"
    using j by (intro bit_eqI) (auto simp add: bit_simps)
  then show ?thesis
    by (simp add: take_bit_eq_mod drop_bit_eq_div power_mult)
qed

lemma le_bytes_4_of_nat: "le_bytes 4 (unat (of_nat n :: uint32)) = le_bytes 4 n"
  by (simp add: le_bytes_def unat_of_nat digit_mod)

lemma write_unbounded:
  "write (Writer out None) ds = Inr (Writer (out @ concat (map encode ds)) None)"
  by (induction ds arbitrary: out) (simp_all add: binary_Write_def Writer_Write_def)

lemma Writer_Write_unbounded:
  "Writer_Write (Writer out None) p = Inr (Writer (out @ p) None)"
  by (simp add: Writer_Write_def)

lemma PutUint32_length: "PutUint32 (of_nat n) = le_bytes 4 n"
  by (simp add: PutUint32_le_bytes le_bytes_4_of_nat)

lemma CHD_Write_loop_unbounded:
  assumes "length (keys c) \<le> length (values c)"
  shows "CHD_Write_loop c i (Writer out None) =
     Inr (Writer (out @ concat (map (\<lambda>j. entry_block (keys c ! j) (values c ! j))
                                  [i..<length (keys c)])) None)"
  using assms
proof (induction "length (keys c) - i" arbitrary: i out)
  case 0
  then show ?case by (simp add: CHD_Write_loop.simps)
next
  case (Suc n)
  then have i: "i < length (keys c)" and n: "n = length (keys c) - Suc i" by simp_all
  have iv: "i < length (values c)" using i Suc.prems by simp
  have u: "[i..<length (keys c)] = i # [Suc i..<length (keys c)]"
    using i by (rule upt_conv_Cons)
  show ?case
    using i iv Suc.hyps(1) [OF n Suc.prems]
    by (subst CHD_Write_loop.simps)
      (simp add: index_checked_def write_unbounded Writer_Write_unbounded u
        entry_block_def PutUint32_length Let_def del: "write.simps")
qed

lemma map_nth_map2:
  "length xs \<le> length ys \<Longrightarrow> map (\<lambda>j. f (xs ! j) (ys ! j)) [0..<length xs] = map2 f xs ys"
  by (rule nth_equalityI) simp_all

lemma encode_U64s: "concat (map PutUint64 vs) = concat (map (\<lambda>x. le_bytes 8 (unat x)) vs)"
  by (rule arg_cong [where f = concat], rule map_cong) (simp_all add: PutUint64_le_bytes)

lemma encode_U16s: "concat (map PutUint16 vs) = concat (map (\<lambda>x. le_bytes 2 (unat x)) vs)"
  by (rule arg_cong [where f = concat], rule map_cong) (simp_all add: PutUint16_le_bytes)

lemma Indexer_Write_unbounded:
  "Indexer_Write c (Writer out None) = Inr (Writer (out @ indexer_block c) None)"
  by (simp add: Indexer_Write_def write_unbounded indexer_block_def PutUint32_length
      encode_U64s encode_U16s del: "write.simps")

lemma CHD_Write_unbounded:
  assumes "length (keys t) \<le> length (values t)"
  shows "CHD_Write t (Writer out None) = Inr (Writer (out @ table_block t) None)"
  by (simp add: CHD_Write_def write_unbounded CHD_Write_loop_unbounded [OF assms]
      table_block_def indexer_block_def PutUint32_length encode_U64s encode_U16s
      map_nth_map2 [OF assms] del: "write.simps")

lemma Uint16_PutUint16: "Uint16 (PutUint16 v) = v"
proof (rule bit_word_eqI)
  fix n assume "n < LENGTH(16)"
  then consider "n < 8" | "8 \<le> n \<and> n < 16" by fastforce
  then show "bit (Uint16 (PutUint16 v)) n = bit v n"
    by cases (auto simp add: Uint16_def PutUint16_def bit_simps)
qed

lemma Uint32_PutUint32: "Uint32 (PutUint32 v) = v"
proof (rule bit_word_eqI)
  fix n assume "n < LENGTH(32)"
  then consider "n < 8" | "8 \<le> n \<and> n < 16" | "16 \<le> n \<and> n < 24" | "24 \<le> n \<and> n < 32"
    by fastforce
  then show "bit (Uint32 (PutUint32 v)) n = bit v n"
    by cases (auto simp add: Uint32_def PutUint32_def bit_simps)
qed

lemma Uint64_PutUint64: "Uint64 (PutUint64 v) = v"
proof (rule bit_word_eqI)
  fix n assume "n < LENGTH(64)"
  then consider "n < 8" | "8 \<le> n \<and> n < 16" | "16 \<le> n \<and> n < 24" | "24 \<le> n \<and> n < 32"
    | "32 \<le> n \<and> n < 40" | "40 \<le> n \<and> n < 48" | "48 \<le> n \<and> n < 56" | "56 \<le> n \<and> n < 64"
    by fastforce
  then show "bit (Uint64 (PutUint64 v)) n = bit v n"
    by cases (auto simp add: Uint64_def PutUint64_def bit_simps)
qed

lemma length_PutUint [simp]:
  "length (PutUint16 a) = 2" "length (PutUint32 b) = 4" "length (PutUint64 c) = 8"
  by (simp_all add: PutUint16_def PutUint32_def PutUint64_def)

lemma Read_ok:
  assumes wf: "sr_end bi \<le> length (sr_b bi)" and u: "unread bi = xs @ rest"
    and n: "unat n = length xs"
  obtains bi' where "sliceReader_Read bi n = Inr (xs, bi')"
    and "sr_end bi' \<le> length (sr_b bi')" and "unread bi' = rest"
proof
  let ?bi' = "SliceReader (sr_b bi) (sr_end bi + length xs)"
  have "length (unread bi) = length xs + length rest"
    by (simp add: u)
  then have le: "sr_end bi + length xs \<le> length (sr_b bi)"
    using wf by (simp add: unread_def)
  have "take (length xs) (drop (sr_end bi) (sr_b bi)) = xs"
    using u by (simp add: unread_def)
  then show "sliceReader_Read bi n = Inr (xs, ?bi')"
    using le by (simp add: sliceReader_Read_def n Let_def)
  show "sr_end ?bi' \<le> length (sr_b ?bi')"
    using le by simp
  have "drop (sr_end bi + length xs) (sr_b bi) = drop (length xs) (drop (sr_end bi) (sr_b bi))"
    by (simp add: add.commute)
  also have "\<dots> = rest"
    using u by (simp add: unread_def)
  finally show "unread ?bi' = rest"
    by (simp add: unread_def)
qed

lemma ReadInt_ok:
  assumes wf: "sr_end bi \<le> length (sr_b bi)" and u: "unread bi = PutUint32 v @ rest"
  obtains bi' where "sliceReader_ReadInt bi = Inr (ucast v, bi')"
    and "sr_end bi' \<le> length (sr_b bi')" and "unread bi' = rest"
proof -
  have "unat (4 :: uint64) = length (PutUint32 v)" by simp
  from Read_ok [OF wf u this] obtain bi'
    where "sliceReader_Read bi 4 = Inr (PutUint32 v, bi')"
      and "sr_end bi' \<le> length (sr_b bi')" and "unread bi' = rest" by blast
  then show ?thesis
    by (intro that [of bi']) (simp_all add: sliceReader_ReadInt_def Uint32_PutUint32)
qed

lemma items_concat:
  assumes "\<forall>x \<in> set xss. length x = w"
  shows "items w (length xss) (concat xss @ rest) = xss"
  using assms by (induction xss) simp_all

lemma items_take:
  "n * w \<le> length bs \<Longrightarrow> items w n (take (n * w) bs) = items w n bs"
proof (induction n arbitrary: bs)
  case 0
  then show ?case by simp
next
  case (Suc n)
  then have "n * w \<le> length (drop w bs)" by simp
  from Suc.IH [OF this] show ?case
    by (simp add: take_drop add.commute min_def)
qed

lemma length_concat_PutUint64: "length (concat (map PutUint64 vs)) = length vs * 8"
  by (induction vs) simp_all

lemma length_concat_PutUint16: "length (concat (map PutUint16 vs)) = length vs * 2"
  by (induction vs) simp_all

lemma unat_ucast_len32:
  "n < 2 ^ 32 \<Longrightarrow> unat (ucast (of_nat n :: uint32) :: uint64) = n"
  by (simp add: unsigned_ucast_eq unat_of_nat take_bit_nat_eq_self)

lemma unat_times_len32:
  fixes n :: uint64
  assumes "unat n < 2 ^ 32" and "k \<le> 8"
  shows "unat (n * of_nat k) = unat n * k"
proof -
  have "unat n * k \<le> unat n * 8" using assms(2) by simp
  also have "\<dots> < 2 ^ 64" using assms(1) by simp
  finally have lt: "unat n * k < 2 ^ 64" .
  have "unat (of_nat k :: uint64) = k"
    using assms(2) by (simp add: unat_of_nat)
  then show ?thesis
    using lt by (simp add: unat_word_ariths)
qed

lemma ReadUint64Array_ok:
  assumes wf: "sr_end bi \<le> length (sr_b bi)"
    and u: "unread bi = concat (map PutUint64 vs) @ rest"
    and n: "unat n = length vs" and lt: "length vs < 2 ^ 32"
  obtains bi' where "sliceReader_ReadUint64Array bi n = Inr (vs, bi')"
    and "sr_end bi' \<le> length (sr_b bi')" and "unread bi' = rest"
proof -
  have "unat (n * 8) = unat n * 8"
    using unat_times_len32 [of n 8] n lt by simp
  then have "unat (n * 8) = length (concat (map PutUint64 vs))"
    by (simp add: n length_concat_PutUint64)
  from Read_ok [OF wf u this] obtain bi'
    where rd: "sliceReader_Read bi (n * 8) = Inr (concat (map PutUint64 vs), bi')"
      and wf': "sr_end bi' \<le> length (sr_b bi')" and u': "unread bi' = rest" by blast
  have "items 8 (length (map PutUint64 vs)) (concat (map PutUint64 vs) @ []) = map PutUint64 vs"
    by (rule items_concat) simp
  then have "map Uint64 (items 8 (unat n) (concat (map PutUint64 vs))) = vs"
    by (simp add: n Uint64_PutUint64 comp_def)
  with rd have "sliceReader_ReadUint64Array bi n = Inr (vs, bi')"
    by (simp add: sliceReader_ReadUint64Array_def)
  then show ?thesis using wf' u' by (rule that)
qed

lemma ReadUint16Array_ok:
  assumes wf: "sr_end bi \<le> length (sr_b bi)"
    and u: "unread bi = concat (map PutUint16 vs) @ rest"
    and n: "unat n = length vs" and lt: "length vs < 2 ^ 32"
  obtains bi' where "sliceReader_ReadUint16Array bi n = Inr (vs, bi')"
    and "sr_end bi' \<le> length (sr_b bi')" and "unread bi' = rest"
proof -
  have "unat (n * 2) = unat n * 2"
    using unat_times_len32 [of n 2] n lt by simp
  then have "unat (n * 2) = length (concat (map PutUint16 vs))"
    by (simp add: n length_concat_PutUint16)
  from Read_ok [OF wf u this] obtain bi'
    where rd: "sliceReader_Read bi (n * 2) = Inr (concat (map PutUint16 vs), bi')"
      and wf': "sr_end bi' \<le> length (sr_b bi')" and u': "unread bi' = rest" by blast
  have "items 2 (length (map PutUint16 vs)) (concat (map PutUint16 vs) @ []) = map PutUint16 vs"
    by (rule items_concat) simp
  then have "map Uint16 (items 2 (unat n) (concat (map PutUint16 vs))) = vs"
    by (simp add: n Uint16_PutUint16 comp_def)
  with rd have "sliceReader_ReadUint16Array bi n = Inr (vs, bi')"
    by (simp add: sliceReader_ReadUint16Array_def)
  then show ?thesis using wf' u' by (rule that)
qed

text \<open>The indexer block in terms of the encoders of the source.\<close>

lemma indexer_block_Put:
  "indexer_block c =
     PutUint32 (of_nat (length (r c))) @ concat (map PutUint64 (r c)) @
     PutUint32 (of_nat (length (indices c))) @ concat (map PutUint16 (indices c))"
  by (simp add: indexer_block_def PutUint32_length encode_U64s encode_U16s)

lemma entry_block_Put:
  "entry_block k v = PutUint32 (of_nat (length k)) @ PutUint32 (of_nat (length v)) @ k @ v"
  by (simp add: entry_block_def PutUint32_length)

lemma mmapIndexer_ok:
  assumes wf: "sr_end bi \<le> length (sr_b bi)"
    and u: "unread bi = indexer_block c @ rest"
    and lr: "length (r c) < 2 ^ 32" and li: "length (indices c) < 2 ^ 32"
  obtains bi' where "mmapIndexer b bi = Inr (c, bi')"
    and "sr_end bi' \<le> length (sr_b bi')" and "unread bi' = rest"
proof -
  let ?rl = "ucast (of_nat (length (r c)) :: uint32) :: uint64"
  let ?il = "ucast (of_nat (length (indices c)) :: uint32) :: uint64"
  have u1: "unread bi = PutUint32 (of_nat (length (r c))) @ (concat (map PutUint64 (r c)) @
     PutUint32 (of_nat (length (indices c))) @ concat (map PutUint16 (indices c)) @ rest)"
    by (simp add: u indexer_block_Put)
  from ReadInt_ok [OF wf u1] obtain bi1
    where r1: "sliceReader_ReadInt bi = Inr (?rl, bi1)"
      and wf1: "sr_end bi1 \<le> length (sr_b bi1)"
      and u2: "unread bi1 = concat (map PutUint64 (r c)) @
          (PutUint32 (of_nat (length (indices c))) @ concat (map PutUint16 (indices c)) @ rest)"
    by blast
  have "unat ?rl = length (r c)" using lr by (rule unat_ucast_len32)
  from ReadUint64Array_ok [OF wf1 u2 this lr] obtain bi2
    where r2: "sliceReader_ReadUint64Array bi1 ?rl = Inr (r c, bi2)"
      and wf2: "sr_end bi2 \<le> length (sr_b bi2)"
      and u3: "unread bi2 = PutUint32 (of_nat (length (indices c))) @
          (concat (map PutUint16 (indices c)) @ rest)"
    by blast
  from ReadInt_ok [OF wf2 u3] obtain bi3
    where r3: "sliceReader_ReadInt bi2 = Inr (?il, bi3)"
      and wf3: "sr_end bi3 \<le> length (sr_b bi3)"
      and u4: "unread bi3 = concat (map PutUint16 (indices c)) @ rest"
    by blast
  have "unat ?il = length (indices c)" using li by (rule unat_ucast_len32)
  from ReadUint16Array_ok [OF wf3 u4 this li] obtain bi4
    where r4: "sliceReader_ReadUint16Array bi3 ?il = Inr (indices c, bi4)"
      and wf4: "sr_end bi4 \<le> length (sr_b bi4)"
      and u5: "unread bi4 = rest"
    by blast
  have "mmapIndexer b bi = Inr (c, bi4)"
    by (simp add: mmapIndexer_def r1 r2 r3 r4)
  then show ?thesis using wf4 u5 by (rule that)
qed

lemma Mmap_loop_ok:
  assumes "length ks' = length vs'"
    and "\<forall>k \<in> set ks'. length k < 2 ^ 32" and "\<forall>v \<in> set vs'. length v < 2 ^ 32"
    and "sr_end bi \<le> length (sr_b bi)"
    and "unread bi = concat (map2 entry_block ks' vs') @ rest"
    and "el = i + length ks'" and "length ks = el" and "length vs = el"
  shows "Mmap_loop i el bi ks vs = Inr (take i ks @ ks', take i vs @ vs')"
  using assms
proof (induction ks' vs' arbitrary: i bi ks vs rule: list_induct2)
  case Nil
  then show ?case by (simp add: Mmap_loop.simps)
next
  case (Cons k ks' v vs')
  let ?kl = "ucast (of_nat (length k) :: uint32) :: uint64"
  let ?vl = "ucast (of_nat (length v) :: uint32) :: uint64"
  let ?tail = "concat (map2 entry_block ks' vs') @ rest"
  have lk: "length k < 2 ^ 32" and lv: "length v < 2 ^ 32"
    using Cons.prems(1,2) by simp_all
  have i: "i < el" "i < length ks" "i < length vs"
    using Cons.prems(5,6,7) by simp_all
  have u1: "unread bi = PutUint32 (of_nat (length k)) @
      (PutUint32 (of_nat (length v)) @ k @ v @ ?tail)"
    using Cons.prems(4) by (simp add: entry_block_Put)
  from ReadInt_ok [OF Cons.prems(3) u1] obtain bi1
    where r1: "sliceReader_ReadInt bi = Inr (?kl, bi1)"
      and wf1: "sr_end bi1 \<le> length (sr_b bi1)"
      and u2: "unread bi1 = PutUint32 (of_nat (length v)) @ (k @ v @ ?tail)"
    by blast
  from ReadInt_ok [OF wf1 u2] obtain bi2
    where r2: "sliceReader_ReadInt bi1 = Inr (?vl, bi2)"
      and wf2: "sr_end bi2 \<le> length (sr_b bi2)"
      and u3: "unread bi2 = k @ (v @ ?tail)"
    by blast
  have "unat ?kl = length k" using lk by (rule unat_ucast_len32)
  from Read_ok [OF wf2 u3 this] obtain bi3
    where r3: "sliceReader_Read bi2 ?kl = Inr (k, bi3)"
      and wf3: "sr_end bi3 \<le> length (sr_b bi3)"
      and u4: "unread bi3 = v @ ?tail"
    by blast
  have "unat ?vl = length v" using lv by (rule unat_ucast_len32)
  from Read_ok [OF wf3 u4 this] obtain bi4
    where r4: "sliceReader_Read bi3 ?vl = Inr (v, bi4)"
      and wf4: "sr_end bi4 \<le> length (sr_b bi4)"
      and u5: "unread bi4 = ?tail"
    by blast
  have step: "Mmap_loop i el bi ks vs = Mmap_loop (Suc i) el bi4 (ks[i := k]) (vs[i := v])"
    using i(1) by (subst Mmap_loop.simps) (simp add: r1 r2 r3 r4)
  have "Mmap_loop (Suc i) el bi4 (ks[i := k]) (vs[i := v]) =
      Inr (take (Suc i) (ks[i := k]) @ ks', take (Suc i) (vs[i := v]) @ vs')"
    using Cons.prems(1,2,5,6,7) by (intro Cons.IH [OF _ _ wf4 u5]) simp_all
  also have "take (Suc i) (ks[i := k]) = take i ks @ [k]"
    using i(2) by (simp add: take_Suc_conv_app_nth)
  also have "take (Suc i) (vs[i := v]) = take i vs @ [v]"
    using i(3) by (simp add: take_Suc_conv_app_nth)
  finally show ?case
    by (simp add: step)
qed

lemma Mmap_ok:
  assumes lr: "length (r (Indexer t)) < 2 ^ 32"
    and li: "length (indices (Indexer t)) < 2 ^ 32"
    and lk: "length (keys t) < 2 ^ 32"
    and lv: "length (values t) = length (keys t)"
    and ks: "\<forall>k \<in> set (keys t). length k < 2 ^ 32"
    and vs: "\<forall>v \<in> set (values t). length v < 2 ^ 32"
    and b: "backing b = table_block t @ rest"
  shows "Mmap b = Inr t"
proof -
  let ?bi = "SliceReader (backing b) 0"
  let ?el = "ucast (of_nat (length (keys t)) :: uint32) :: uint64"
  let ?entries = "concat (map2 entry_block (keys t) (values t)) @ rest"
  have wf: "sr_end ?bi \<le> length (sr_b ?bi)" by simp
  have u: "unread ?bi = indexer_block (Indexer t) @
      (PutUint32 (of_nat (length (keys t))) @ ?entries)"
    by (simp add: unread_def b table_block_def PutUint32_length)
  from mmapIndexer_ok [OF wf u lr li, of b] obtain bi1
    where r1: "mmapIndexer b ?bi = Inr (Indexer t, bi1)"
      and wf1: "sr_end bi1 \<le> length (sr_b bi1)"
      and u1: "unread bi1 = PutUint32 (of_nat (length (keys t))) @ ?entries"
    by blast
  from ReadInt_ok [OF wf1 u1] obtain bi2
    where r2: "sliceReader_ReadInt bi1 = Inr (?el, bi2)"
      and wf2: "sr_end bi2 \<le> length (sr_b bi2)"
      and u2: "unread bi2 = ?entries"
    by blast
  have el: "unat ?el = length (keys t)" using lk by (rule unat_ucast_len32)
  have "Mmap_loop 0 (length (keys t)) bi2 (replicate (length (keys t)) [])
      (replicate (length (keys t)) []) = Inr (take 0 (replicate (length (keys t)) []) @ keys t,
        take 0 (replicate (length (keys t)) []) @ values t)"
    using lv ks vs by (intro Mmap_loop_ok [OF _ _ _ wf2 u2]) simp_all
  then show ?thesis
    by (simp add: Mmap_def r1 r2 el)
qed

text \<open>
  Claim C8.  \<open>Indexer.Write\<close> appends to the writer exactly the indexer block
  \<open>u32 rLen | u64[rLen] | u32 indicesLen | u16[indicesLen]\<close>, little endian, and
  \<open>CHD.Write\<close> (on a table that has a value for every key) exactly that block followed
  by \<open>u32 n\<close> and, for each slot in order, \<open>u32 len(key)\<close>, \<open>u32 len(value)\<close>, the
  key bytes and the value bytes, and nothing else.
\<close>

theorem Write_emits_layout:
  "Indexer_Write c (Writer out None) = Inr (Writer (out @ indexer_block c) None) \<and>
   (length (keys t) \<le> length (values t) \<longrightarrow>
      CHD_Write t (Writer out None) = Inr (Writer (out @ table_block t) None))"
  by (simp add: Indexer_Write_unbounded CHD_Write_unbounded)

theorem Write_emits_layout_witness:
  "Indexer_Write \<lparr>r = [1, 2], indices = [1, 65535]\<rparr> (Writer [] None) =
     Inr (Writer [2, 0, 0, 0,  1, 0, 0, 0, 0, 0, 0, 0,  2, 0, 0, 0, 0, 0, 0, 0,
                  2, 0, 0, 0,  1, 0,  255, 255] None) \<and>
   length (keys \<lparr>Indexer = \<lparr>r = [1, 2], indices = [1, 65535]\<rparr>,
       keys = [[99], [100], [98]], values = [[1], [2], [3]]\<rparr>)
     \<le> length (values \<lparr>Indexer = \<lparr>r = [1, 2], indices = [1, 65535]\<rparr>,
       keys = [[99], [100], [98]], values = [[1], [2], [3]]\<rparr>) \<and>
   CHD_Write \<lparr>Indexer = \<lparr>r = [1, 2], indices = [1, 65535]\<rparr>,
       keys = [[99], [100], [98]], values = [[1], [2], [3]]\<rparr> (Writer [] None) =
     Inr (Writer [2, 0, 0, 0,  1, 0, 0, 0, 0, 0, 0, 0,  2, 0, 0, 0, 0, 0, 0, 0,
                  2, 0, 0, 0,  1, 0,  255, 255,
                  3, 0, 0, 0,
                  1, 0, 0, 0,  1, 0, 0, 0,  99,  1,
                  1, 0, 0, 0,  1, 0, 0, 0,  100,  2,
                  1, 0, 0, 0,  1, 0, 0, 0,  98,  3] None)"
proof -
  let ?c = "\<lparr>r = [1, 2], indices = [1, 65535]\<rparr>"
  let ?t = "\<lparr>Indexer = ?c, keys = [[99], [100], [98]], values = [[1], [2], [3]]\<rparr>"
  have h: "length (keys ?t) \<le> length (values ?t)"
    by simp
  have b1: "indexer_block ?c = [2, 0, 0, 0,  1, 0, 0, 0, 0, 0, 0, 0,  2, 0, 0, 0, 0, 0, 0, 0,
                  2, 0, 0, 0,  1, 0,  255, 255]"
    by (simp add: indexer_block_def le_bytes_def upt_rec)
  have b2: "table_block ?t = indexer_block ?c @ [3, 0, 0, 0,
                  1, 0, 0, 0,  1, 0, 0, 0,  99,  1,
                  1, 0, 0, 0,  1, 0, 0, 0,  100,  2,
                  1, 0, 0, 0,  1, 0, 0, 0,  98,  3]"
    by (simp add: table_block_def entry_block_def le_bytes_def upt_rec)
  from Write_emits_layout [of ?c "[]" ?t] h
  have "Indexer_Write ?c (Writer [] None) = Inr (Writer (indexer_block ?c) None)"
    and "CHD_Write ?t (Writer [] None) = Inr (Writer (table_block ?t) None)"
    by simp_all
  then show ?thesis
    by (simp add: b1 b2)
qed

text \<open>
  Claim C1, as amended.  For every table in which \<open>r\<close>, \<open>indices\<close>, the keys and every
  single key and value are shorter than \<open>2 ^ 32\<close> and which has as many values as keys,
  \<open>CHD.Write\<close> followed by \<open>Mmap\<close> (or by \<open>Read\<close>) on the bytes written, in a
  slice or buffer of whatever spare capacity, yields a table
  with the same \<open>r\<close> and the same \<open>indices\<close> on which \<open>Get\<close> answers every key as the
  original table does.
\<close>

theorem Write_Mmap_round_trip:
  assumes "length (r (Indexer t)) < 2 ^ 32"
    and "length (indices (Indexer t)) < 2 ^ 32"
    and "length (keys t) < 2 ^ 32"
    and "length (values t) = length (keys t)"
    and "\<forall>k \<in> set (keys t). length k < 2 ^ 32"
    and "\<forall>v \<in> set (values t). length v < 2 ^ 32"
  shows "\<exists>bs t'. CHD_Write t (Writer [] None) = Inr (Writer bs None) \<and>
           (\<forall>sp. Mmap (Slice bs sp) = Inr t') \<and>
           (\<forall>sp. Read (Reader [bs] False sp) = Inr t') \<and>
           r (Indexer t') = r (Indexer t) \<and> indices (Indexer t') = indices (Indexer t) \<and>
           (\<forall>k. CHD_Get t' k = CHD_Get t k)"
proof -
  have w: "CHD_Write t (Writer [] None) = Inr (Writer (table_block t) None)"
    using CHD_Write_unbounded [of t "[]"] assms(4) by simp
  have m: "Mmap (Slice (table_block t) sp) = Inr t" for sp
    by (rule Mmap_ok [OF assms, of _ sp]) (simp add: backing_def)
  have "Read (Reader [table_block t] False sp) = Inr t" for sp
    by (simp add: Read_def ReadAll_def ReadAll_loop_delivers m)
  with w m show ?thesis by blast
qed

theorem Write_Mmap_round_trip_witness:
  "length (r (Indexer \<lparr>Indexer = \<lparr>r = [1, 2], indices = [1, 65535]\<rparr>,
       keys = [[99], [100], [98]], values = [[1], [2], [3]]\<rparr>)) < 2 ^ 32 \<and>
   length (keys \<lparr>Indexer = \<lparr>r = [1, 2], indices = [1, 65535]\<rparr>,
       keys = [[99], [100], [98]], values = [[1], [2], [3]]\<rparr>) < 2 ^ 32 \<and>
   length [99 :: byte] < 2 ^ 32 \<and> length [1 :: byte] < 2 ^ 32 \<and>
   (\<exists>bs t'. CHD_Write \<lparr>Indexer = \<lparr>r = [1, 2], indices = [1, 65535]\<rparr>,
         keys = [[99], [100], [98]], values = [[1], [2], [3]]\<rparr> (Writer [] None)
           = Inr (Writer bs None) \<and>
       Mmap (Slice bs []) = Inr t' \<and> Read (Reader [bs] False [0, 0]) = Inr t' \<and>
       r (Indexer t') = [1, 2] \<and> indices (Indexer t') = [1, 65535] \<and>
       CHD_Get t' [98] = CHD_Get \<lparr>Indexer = \<lparr>r = [1, 2], indices = [1, 65535]\<rparr>,
         keys = [[99], [100], [98]], values = [[1], [2], [3]]\<rparr> [98])"
proof -
  let ?t = "\<lparr>Indexer = \<lparr>r = [1, 2], indices = [1, 65535]\<rparr>,
       keys = [[99], [100], [98]], values = [[1], [2], [3]]\<rparr>"
  have h: "length (r (Indexer ?t)) < 2 ^ 32" "length (indices (Indexer ?t)) < 2 ^ 32"
    "length (keys ?t) < 2 ^ 32" "length (values ?t) = length (keys ?t)"
    "\<forall>k \<in> set (keys ?t). length k < 2 ^ 32" "\<forall>v \<in> set (values ?t). length v < 2 ^ 32"
    by simp_all
  from Write_Mmap_round_trip [OF h] obtain bs t'
    where "CHD_Write ?t (Writer [] None) = Inr (Writer bs None)"
      and "\<forall>sp. Mmap (Slice bs sp) = Inr t'"
      and "\<forall>sp. Read (Reader [bs] False sp) = Inr t'"
      and "r (Indexer t') = r (Indexer ?t)" and "indices (Indexer t') = indices (Indexer ?t)"
      and "\<forall>k. CHD_Get t' k = CHD_Get ?t k"
    by blast
  then have "\<exists>bs t'. CHD_Write ?t (Writer [] None) = Inr (Writer bs None) \<and>
       Mmap (Slice bs []) = Inr t' \<and> Read (Reader [bs] False [0, 0]) = Inr t' \<and>
       r (Indexer t') = [1, 2] \<and> indices (Indexer t') = [1, 65535] \<and>
       CHD_Get t' [98] = CHD_Get ?t [98]"
    by (intro exI [of _ bs] exI [of _ t']) simp
  then show ?thesis by simp
qed

text \<open>
  The claim as stated fails: the length prefixes are \<open>u32\<close>.  A table whose one key is
  \<open>2 ^ 32\<close> zero bytes long, with value \<open>[1]\<close>, is written with key length 0; \<open>Mmap\<close>
  reads back the empty key and, as the value, the first byte of the key; \<open>Get\<close> of the
  key finds \<open>[1]\<close> in the original table and nothing in the one read back.
\<close>

lemma long_key_table_block:
  assumes "length K = 4294967296"
  shows "table_block \<lparr>Indexer = \<lparr>r = [0], indices = [0]\<rparr>, keys = [K], values = [[1]]\<rparr> =
     table_block \<lparr>Indexer = \<lparr>r = [0], indices = [0]\<rparr>, keys = [[]], values = [[hd K]]\<rparr>
       @ tl K @ [1]"
proof -
  obtain x xs where K: "K = x # xs"
    using assms by (cases K) auto
  have "le_bytes 4 (length K) = le_bytes 4 0"
    by (simp add: assms le_bytes_def upt_rec)
  then show ?thesis
    by (simp add: table_block_def entry_block_def K)
qed

lemma long_key_Get:
  assumes "length K = 4294967296"
  shows "CHD_Get \<lparr>Indexer = \<lparr>r = [0], indices = [0]\<rparr>, keys = [K], values = [[1]]\<rparr> K
           = Inr (Some [1])"
    and "CHD_Get \<lparr>Indexer = \<lparr>r = [0], indices = [0]\<rparr>, keys = [[]], values = [[hd K]]\<rparr> K
           = Inr None"
proof -
  have K: "K \<noteq> []" using assms by auto
  have s: "Indexer_Get \<lparr>r = [0], indices = [0]\<rparr> K 1 = Inr 0"
    by (simp add: Indexer_Get_def index_checked_def word_le_nat_alt)
  show "CHD_Get \<lparr>Indexer = \<lparr>r = [0], indices = [0]\<rparr>, keys = [K], values = [[1]]\<rparr> K
           = Inr (Some [1])"
    by (simp add: CHD_Get_def s index_checked_def bytes_Compare_eq)
  show "CHD_Get \<lparr>Indexer = \<lparr>r = [0], indices = [0]\<rparr>, keys = [[]], values = [[hd K]]\<rparr> K
           = Inr None"
    using K by (simp add: CHD_Get_def s index_checked_def bytes_Compare_eq)
qed

theorem Write_Mmap_round_trip_counterexample:
  "CHD_Write \<lparr>Indexer = \<lparr>r = [0], indices = [0]\<rparr>,
       keys = [replicate 4294967296 0], values = [[1]]\<rparr> (Writer [] None) =
     Inr (Writer (table_block \<lparr>Indexer = \<lparr>r = [0], indices = [0]\<rparr>,
       keys = [replicate 4294967296 0], values = [[1]]\<rparr>) None) \<and>
   Mmap (Slice (table_block \<lparr>Indexer = \<lparr>r = [0], indices = [0]\<rparr>,
       keys = [replicate 4294967296 0], values = [[1]]\<rparr>) []) =
     Inr \<lparr>Indexer = \<lparr>r = [0], indices = [0]\<rparr>, keys = [[]], values = [[0]]\<rparr> \<and>
   CHD_Get \<lparr>Indexer = \<lparr>r = [0], indices = [0]\<rparr>,
       keys = [replicate 4294967296 0], values = [[1]]\<rparr> (replicate 4294967296 0) =
     Inr (Some [1]) \<and>
   CHD_Get \<lparr>Indexer = \<lparr>r = [0], indices = [0]\<rparr>, keys = [[]], values = [[0]]\<rparr>
       (replicate 4294967296 0) =
     Inr None"
proof -
  let ?K = "replicate 4294967296 (0 :: byte)"
  let ?t' = "\<lparr>Indexer = \<lparr>r = [0], indices = [0]\<rparr>, keys = [[]], values = [[0]]\<rparr>"
  have l: "length ?K = 4294967296" by simp
  have hd: "hd ?K = 0" by simp
  have "Mmap (Slice (table_block ?t' @ tl ?K @ [1]) []) = Inr ?t'"
    by (rule Mmap_ok [where rest = "tl ?K @ [1]"]) (simp_all add: backing_def)
  then have m: "Mmap (Slice (table_block \<lparr>Indexer = \<lparr>r = [0], indices = [0]\<rparr>,
       keys = [?K], values = [[1]]\<rparr>) []) = Inr ?t'"
    using long_key_table_block [OF l] by (simp only: hd)
  have w: "CHD_Write \<lparr>Indexer = \<lparr>r = [0], indices = [0]\<rparr>, keys = [?K], values = [[1]]\<rparr>
       (Writer [] None) =
     Inr (Writer (table_block \<lparr>Indexer = \<lparr>r = [0], indices = [0]\<rparr>,
       keys = [?K], values = [[1]]\<rparr>) None)"
    using CHD_Write_unbounded [of "\<lparr>Indexer = \<lparr>r = [0], indices = [0]\<rparr>,
       keys = [?K], values = [[1]]\<rparr>" "[]"] by simp
  from long_key_Get [OF l] w m show ?thesis
    by (simp only: hd simp_thms)
qed

section \<open>Failure of the deserialization\<close>















































section \<open>Properties of the builder\<close>

lemma search_table_Some:
  assumes "search_table slots r0 bucket seeds ri = Some ri'"
  shows "ri \<le> ri' \<and> ri' < ri + length seeds \<and> ri' < 65535 \<and>
     fits slots r0 (seeds ! (ri' - ri)) bucket"
  using assms
proof (induction seeds arbitrary: ri)
  case Nil
  then show ?case by simp
next
  case (Cons seed seeds)
  show ?case
  proof (cases "fits slots r0 seed bucket")
    case True
    with Cons.prems show ?thesis by (simp split: if_splits)
  next
    case False
    with Cons.prems have "search_table slots r0 bucket seeds (Suc ri) = Some ri'"
      by (simp split: if_splits)
    from Cons.IH [OF this] show ?thesis
      by (auto simp add: Suc_diff_le)
  qed
qed

lemma search_fresh_Some:
  assumes "search_fresh slots r0 bucket rs fresh = Some (ri, rs', fresh')"
  shows "(\<exists>ext. rs' = rs @ ext) \<and> length rs \<le> ri \<and> ri < length rs' \<and> length rs' \<le> 65535 \<and>
     fits slots r0 (rs' ! ri) bucket"
  using assms
proof (induction fresh arbitrary: rs)
  case Nil
  then show ?case by simp
next
  case (Cons seed fresh)
  show ?case
  proof (cases "fits slots r0 seed bucket")
    case True
    with Cons.prems show ?thesis by (auto split: if_splits)
  next
    case False
    with Cons.prems have "search_fresh slots r0 bucket (rs @ [seed]) fresh = Some (ri, rs', fresh')"
      by (simp split: if_splits)
    from Cons.IH [OF this] show ?thesis
      by auto
  qed
qed

lemma length_place [simp]: "length (place r0 seed bucket slots) = length slots"
  by (induction bucket arbitrary: slots) simp_all

lemma slot_of_less: "0 < n \<Longrightarrow> slot_of r0 seed n key < n"
  by (simp add: slot_of_def)

lemma place_fits:
  assumes "fits slots r0 seed bucket" and "0 < length slots"
  shows "(\<forall>kv \<in> set bucket.
            place r0 seed bucket slots ! slot_of r0 seed (length slots) (fst kv) = Some kv) \<and>
         (\<forall>s. slots ! s \<noteq> None \<longrightarrow> place r0 seed bucket slots ! s = slots ! s)"
  using assms
proof (induction bucket arbitrary: slots)
  case Nil
  then show ?case by simp
next
  case (Cons kv bucket)
  let ?n = "length slots"
  let ?p = "slot_of r0 seed ?n (fst kv)"
  let ?slots = "slots[?p := Some kv]"
  have p: "?p < ?n" using Cons.prems(2) by (rule slot_of_less)
  from Cons.prems(1) have none: "slots ! ?p = None"
    and d: "?p \<notin> (\<lambda>kv. slot_of r0 seed ?n (fst kv)) ` set bucket"
    and dist: "distinct (map (\<lambda>kv. slot_of r0 seed ?n (fst kv)) bucket)"
    and rest: "\<forall>kv' \<in> set bucket. slots ! slot_of r0 seed ?n (fst kv') = None"
    by (simp_all add: fits_def list_all_iff)
  have "\<forall>kv' \<in> set bucket. ?slots ! slot_of r0 seed ?n (fst kv') = None"
  proof
    fix kv' assume kv': "kv' \<in> set bucket"
    then have "slot_of r0 seed ?n (fst kv') \<in> (\<lambda>kv. slot_of r0 seed ?n (fst kv)) ` set bucket"
      by (rule imageI)
    with d have "slot_of r0 seed ?n (fst kv') \<noteq> ?p" by metis
    with rest kv' show "?slots ! slot_of r0 seed ?n (fst kv') = None" by simp
  qed
  with dist have f: "fits ?slots r0 seed bucket"
    by (simp add: fits_def list_all_iff)
  have l: "0 < length ?slots" using Cons.prems(2) by simp
  from Cons.IH [OF f l]
  have ih1: "\<forall>kv' \<in> set bucket. place r0 seed bucket ?slots ! slot_of r0 seed ?n (fst kv') = Some kv'"
    and ih2: "\<forall>s. ?slots ! s \<noteq> None \<longrightarrow> place r0 seed bucket ?slots ! s = ?slots ! s"
    by simp_all
  have here: "?slots ! ?p = Some kv" using p by simp
  with ih2 have a: "place r0 seed bucket ?slots ! ?p = Some kv" by simp
  have b: "place r0 seed bucket ?slots ! s = slots ! s" if "slots ! s \<noteq> None" for s
  proof -
    from that none have "s \<noteq> ?p" by auto
    then have "?slots ! s = slots ! s" by simp
    with that ih2 show ?thesis by simp
  qed
  from a b ih1 show ?case by simp
qed

lemma place_bucket_inv:
  assumes pb: "place_bucket st bb = Some st'"
    and sh: "shaped r0 m n st" and pl: "placed n st S"
    and b: "fst bb < m" and new: "fst bb \<notin> fst ` S" and n: "0 < n"
  shows "shaped r0 m n st' \<and> placed n st' (insert bb S)"
proof (cases "snd bb = []")
  case True
  with pb have "st' = st" by (simp add: place_bucket_def)
  with sh pl True show ?thesis by (simp add: placed_def)
next
  case False
  let ?slots = "bs_slots st"
  let ?r = "bs_r st"
  from sh have ls: "length ?slots = n" and li: "length (bs_indices st) = m"
    and r: "?r \<noteq> []" and lr: "length ?r \<le> 65535" and r0: "?r ! 0 = r0"
    by (simp_all add: shaped_def)
  have ln: "0 < length ?slots" using ls n by simp
  \<comment> \<open>what both outcomes of the search share\<close>
  have step: "shaped r0 m n st' \<and> placed n st' (insert bb S)"
    if st': "st' = \<lparr>bs_r = rs, bs_indices = (bs_indices st)[fst bb := of_nat ri],
                   bs_slots = place r0 (rs ! ri) (snd bb) ?slots, bs_fresh = fresh\<rparr>"
      and ext: "rs = ?r @ ext" and ri: "0 < ri" "ri < length rs" and lrs: "length rs \<le> 65535"
      and f: "fits ?slots r0 (rs ! ri) (snd bb)"
    for rs ri fresh ext
  proof -
    note pf = place_fits [OF f ln]
    have old: "rs ! i = ?r ! i" if "i < length ?r" for i
      using that by (simp add: ext nth_append)
    have rs0: "rs ! 0 = r0" using r old [of 0] r0 by simp
    moreover have "rs \<noteq> []" using r by (simp add: ext)
    ultimately have "shaped r0 m n st'"
      using lrs by (simp add: shaped_def st' ls li)
    moreover have "placed n st' (insert bb S)"
      unfolding placed_def
    proof (intro ballI)
      fix bb' kv assume bb': "bb' \<in> insert bb S" and kv: "kv \<in> set (snd bb')"
      show "\<exists>ri. bs_indices st' ! fst bb' = of_nat ri \<and> 0 < ri \<and> ri < length (bs_r st') \<and>
          bs_slots st' ! slot_of (bs_r st' ! 0) (bs_r st' ! ri) n (fst kv) = Some kv"
      proof (cases "bb' = bb")
        case True
        have "bs_indices st' ! fst bb = of_nat ri"
          using b by (simp add: st' li)
        moreover have "bs_slots st' ! slot_of r0 (rs ! ri) n (fst kv) = Some kv"
          using pf kv True by (simp add: st' ls)
        ultimately show ?thesis
          using ri True by (intro exI [of _ ri]) (simp add: st' rs0)
      next
        case False
        with bb' have in_S: "bb' \<in> S" by simp
        then have "fst bb' \<in> fst ` S" by (rule imageI)
        with new have ne: "fst bb' \<noteq> fst bb" by metis
        from pl in_S kv obtain ri' where i: "bs_indices st ! fst bb' = of_nat ri'"
          and ri': "0 < ri'" "ri' < length ?r"
          and s: "?slots ! slot_of r0 (?r ! ri') n (fst kv) = Some kv"
          unfolding placed_def r0 by blast
        from s have "?slots ! slot_of r0 (?r ! ri') n (fst kv) \<noteq> None" by simp
        with pf have "place r0 (rs ! ri) (snd bb) ?slots ! slot_of r0 (?r ! ri') n (fst kv)
            = ?slots ! slot_of r0 (?r ! ri') n (fst kv)" by blast
        with s have "bs_slots st' ! slot_of r0 (rs ! ri') n (fst kv) = Some kv"
          using old [OF ri'(2)] by (simp add: st')
        moreover have "bs_indices st' ! fst bb' = of_nat ri'"
          using ne i by (simp add: st')
        moreover have "ri' < length rs" using ri'(2) by (simp add: ext)
        ultimately show ?thesis
          using ri'(1) by (intro exI [of _ ri']) (simp add: st' rs0)
      qed
    qed
    ultimately show ?thesis ..
  qed
  show ?thesis
  proof (cases "search_table ?slots r0 (snd bb) (drop 1 ?r) 1")
    case (Some ri)
    from search_table_Some [OF Some]
    have ri: "1 \<le> ri" "ri < 1 + length (drop 1 ?r)"
      and f: "fits ?slots r0 (drop 1 ?r ! (ri - 1)) (snd bb)" by simp_all
    from ri r have ril: "ri < length ?r" by simp
    have "drop 1 ?r ! (ri - 1) = ?r ! ri"
      using ri(1) ril by simp
    with f have f': "fits ?slots r0 (?r ! ri) (snd bb)" by simp
    from pb False Some
    have "st' = \<lparr>bs_r = ?r, bs_indices = (bs_indices st)[fst bb := of_nat ri],
                   bs_slots = place r0 (?r ! ri) (snd bb) ?slots, bs_fresh = bs_fresh st\<rparr>"
      by (cases st) (auto simp add: place_bucket_def r0 [symmetric])
    from step [OF this, of "[]"] ri(1) ril lr f' show ?thesis by simp
  next
    case None
    with pb False obtain ri rs fresh
      where sf: "search_fresh ?slots r0 (snd bb) ?r (bs_fresh st) = Some (ri, rs, fresh)"
        and st': "st' = \<lparr>bs_r = rs, bs_indices = (bs_indices st)[fst bb := of_nat ri],
                   bs_slots = place r0 (rs ! ri) (snd bb) ?slots, bs_fresh = fresh\<rparr>"
      by (auto simp add: place_bucket_def r0 split: option.splits)
    from search_fresh_Some [OF sf] obtain ext
      where ext: "rs = ?r @ ext" and ri: "length ?r \<le> ri" "ri < length rs"
        and lrs: "length rs \<le> 65535" and f: "fits ?slots r0 (rs ! ri) (snd bb)"
      by blast
    from ri(1) r have "0 < ri" by (cases ?r) simp_all
    from step [OF st' ext this ri(2) lrs f] show ?thesis .
  qed
qed

lemma place_buckets_inv:
  assumes "place_buckets st bbs = Some st'"
    and "shaped r0 m n st" and "placed n st S"
    and "\<forall>bb \<in> set bbs. fst bb < m" and "distinct (map fst bbs)"
    and "fst ` S \<inter> fst ` set bbs = {}" and "0 < n"
  shows "shaped r0 m n st' \<and> placed n st' (S \<union> set bbs)"
  using assms
proof (induction bbs arbitrary: st S)
  case Nil
  then show ?case by simp
next
  case (Cons bb bbs)
  from Cons.prems(1) obtain st1 where pb: "place_bucket st bb = Some st1"
    and rest: "place_buckets st1 bbs = Some st'"
    by (auto split: option.splits)
  have "fst bb < m" "fst bb \<notin> fst ` S"
    using Cons.prems(4,6) by auto
  from place_bucket_inv [OF pb Cons.prems(2,3) this Cons.prems(7)]
  have sh1: "shaped r0 m n st1" and pl1: "placed n st1 (insert bb S)" by simp_all
  have "fst ` insert bb S \<inter> fst ` set bbs = {}"
    using Cons.prems(5,6) by auto
  from Cons.IH [OF rest sh1 pl1 _ _ this Cons.prems(7)] Cons.prems(4,5)
  show ?case by simp
qed

lemma set_buckets_by_size:
  "set (buckets_by_size r0 m pairs) =
     (\<lambda>b. (b, filter (\<lambda>kv. bucket_of r0 m (fst kv) = b) pairs)) ` {0..<m}"
  by (simp add: buckets_by_size_def)

lemma distinct_buckets_by_size: "distinct (map fst (buckets_by_size r0 m pairs))"
proof -
  let ?xs = "map (\<lambda>b. (b, filter (\<lambda>kv. bucket_of r0 m (fst kv) = b) pairs)) [0..<m]"
  have "map fst ?xs = [0..<m]"
    by (simp add: comp_def)
  then have d: "distinct (map fst ?xs)" by simp
  then have "distinct ?xs" and "inj_on fst (set ?xs)"
    by (simp_all only: distinct_map)
  then have "distinct (rev (sort_key (\<lambda>bb. length (snd bb)) ?xs))"
    and "inj_on fst (set (rev (sort_key (\<lambda>bb. length (snd bb)) ?xs)))"
    by simp_all
  then show ?thesis
    unfolding buckets_by_size_def by (simp only: distinct_map)
qed

lemma Build_placed:
  assumes B: "Build cfg pairs = Some t" and ne: "pairs \<noteq> []" and m: "0 < bucket_count cfg"
  obtains st where "t = \<lparr>Indexer = \<lparr>r = bs_r st, indices = bs_indices st\<rparr>,
                  keys = map slot_key (bs_slots st), values = map slot_value (bs_slots st)\<rparr>"
    and "shaped (primary_seed cfg) (bucket_count cfg) (card (fst ` set pairs)) st"
    and "placed (card (fst ` set pairs)) st
           (set (buckets_by_size (primary_seed cfg) (bucket_count cfg) pairs))"
proof -
  let ?n = "length (remdups (map fst pairs))"
  let ?r0 = "primary_seed cfg" and ?m = "bucket_count cfg"
  let ?init = "\<lparr>bs_r = [?r0], bs_indices = replicate ?m 65535,
                bs_slots = replicate ?n None, bs_fresh = fresh_seeds cfg\<rparr>"
  have n: "?n = card (fst ` set pairs)"
    by (simp add: length_remdups_card_conv)
  have n0: "0 < ?n" using ne by simp
  with B obtain st where pb: "place_buckets ?init (buckets_by_size ?r0 ?m pairs) = Some st"
    and t: "t = \<lparr>Indexer = \<lparr>r = bs_r st, indices = bs_indices st\<rparr>,
                  keys = map slot_key (bs_slots st), values = map slot_value (bs_slots st)\<rparr>"
    by (auto simp add: Build_def Let_def split: option.splits)
  have sh: "shaped ?r0 ?m ?n ?init" by (simp add: shaped_def)
  have pl: "placed ?n ?init {}" by (simp add: placed_def)
  have lt: "\<forall>bb \<in> set (buckets_by_size ?r0 ?m pairs). fst bb < ?m"
    by (auto simp add: set_buckets_by_size)
  from place_buckets_inv [OF pb sh pl lt distinct_buckets_by_size _ n0]
  have "shaped ?r0 ?m ?n st" and "placed ?n st (set (buckets_by_size ?r0 ?m pairs))"
    by simp_all
  with t show ?thesis by (intro that [of st]) (simp_all only: n)
qed

text \<open>What the construction leaves behind for every pair that was added.\<close>

lemma Build_pair:
  assumes B: "Build cfg pairs = Some t" and m: "0 < bucket_count cfg"
    and kv: "kv \<in> set pairs"
  shows "length (indices (Indexer t)) = bucket_count cfg"
    and "r (Indexer t) ! 0 = primary_seed cfg"
    and "length (r (Indexer t)) \<le> 65535"
    and "0 < selector_of (Indexer t) (fst kv)"
    and "selector_of (Indexer t) (fst kv) < length (r (Indexer t))"
    and "length (keys t) = card (fst ` set pairs)"
    and "length (values t) = card (fst ` set pairs)"
    and "built_slot (Indexer t) (card (fst ` set pairs)) (fst kv) < card (fst ` set pairs)"
    and "keys t ! built_slot (Indexer t) (card (fst ` set pairs)) (fst kv) = fst kv"
    and "values t ! built_slot (Indexer t) (card (fst ` set pairs)) (fst kv) = snd kv"
proof -
  let ?n = "card (fst ` set pairs)"
  let ?r0 = "primary_seed cfg" and ?m = "bucket_count cfg"
  from kv have ne: "pairs \<noteq> []" by auto
  from Build_placed [OF B ne m] obtain st
    where t: "t = \<lparr>Indexer = \<lparr>r = bs_r st, indices = bs_indices st\<rparr>,
                  keys = map slot_key (bs_slots st), values = map slot_value (bs_slots st)\<rparr>"
      and sh: "shaped ?r0 ?m ?n st"
      and pl: "placed ?n st (set (buckets_by_size ?r0 ?m pairs))"
    by blast
  from sh have ls: "length (bs_slots st) = ?n" and li: "length (bs_indices st) = ?m"
    and lr: "length (bs_r st) \<le> 65535" and r0: "bs_r st ! 0 = ?r0"
    by (simp_all add: shaped_def)
  have "fst kv \<in> fst ` set pairs" using kv by (rule imageI)
  then have "fst ` set pairs \<noteq> {}" by auto
  then have n0: "0 < ?n" by (simp add: card_gt_0_iff)
  let ?b = "bucket_of ?r0 ?m (fst kv)"
  have b: "?b < ?m" using m by (simp add: bucket_of_def)
  then have "(?b, filter (\<lambda>kv. bucket_of ?r0 ?m (fst kv) = ?b) pairs)
      \<in> set (buckets_by_size ?r0 ?m pairs)"
    by (simp add: set_buckets_by_size)
  moreover have "kv \<in> set (filter (\<lambda>kv. bucket_of ?r0 ?m (fst kv) = ?b) pairs)"
    using kv by simp
  ultimately obtain ri where i: "bs_indices st ! ?b = of_nat ri"
    and ri: "0 < ri" "ri < length (bs_r st)"
    and s: "bs_slots st ! slot_of ?r0 (bs_r st ! ri) ?n (fst kv) = Some kv"
    using pl unfolding placed_def r0 by fastforce
  have "unat (of_nat ri :: uint16) = ri"
    using ri(2) lr by (simp add: unat_of_nat)
  then have sel: "selector_of (Indexer t) (fst kv) = ri"
    by (simp add: selector_of_def t li r0 i)
  have bs: "built_slot (Indexer t) ?n (fst kv) = slot_of ?r0 (bs_r st ! ri) ?n (fst kv)"
    by (simp add: built_slot_def sel) (simp add: t r0)
  have lt: "slot_of ?r0 (bs_r st ! ri) ?n (fst kv) < ?n"
    using n0 by (rule slot_of_less)
  show "length (indices (Indexer t)) = ?m" by (simp add: t li)
  show "r (Indexer t) ! 0 = ?r0" by (simp add: t r0)
  show "length (r (Indexer t)) \<le> 65535" using lr by (simp add: t)
  show "0 < selector_of (Indexer t) (fst kv)" using ri(1) by (simp add: sel)
  show "selector_of (Indexer t) (fst kv) < length (r (Indexer t))"
    using ri(2) by (simp add: sel) (simp add: t)
  show "length (keys t) = ?n" by (simp add: t ls)
  show "length (values t) = ?n" by (simp add: t ls)
  show "built_slot (Indexer t) ?n (fst kv) < ?n" using lt by (simp add: bs)
  show "keys t ! built_slot (Indexer t) ?n (fst kv) = fst kv"
    using lt s by (simp add: bs) (simp add: t ls slot_key_def)
  show "values t ! built_slot (Indexer t) ?n (fst kv) = snd kv"
    using lt s by (simp add: bs) (simp add: t ls slot_value_def)
qed

lemma Build_empty:
  "Build cfg [] = Some \<lparr>Indexer = \<lparr>r = [], indices = []\<rparr>, keys = [], values = []\<rparr>"
  by (simp add: Build_def)

lemma Build_length_keys:
  assumes "Build cfg pairs = Some t" and "0 < bucket_count cfg"
  shows "length (keys t) = card (fst ` set pairs)"
proof (cases pairs)
  case Nil
  with assms(1) show ?thesis by (auto simp add: Build_empty)
next
  case (Cons kv kvs)
  then have "kv \<in> set pairs" by simp
  from Build_pair(6) [OF assms this] show ?thesis .
qed

lemma Build_key_at_slot:
  assumes B: "Build cfg pairs = Some t" and m: "0 < bucket_count cfg"
    and "k \<in> fst ` set pairs"
  shows "keys t ! built_slot (Indexer t) (card (fst ` set pairs)) k = k"
proof -
  from assms(3) obtain kv where kv: "kv \<in> set pairs" and k: "k = fst kv" by auto
  from Build_pair(9) [OF B m kv] show ?thesis by (simp only: k)
qed

lemma Build_slot_less:
  assumes B: "Build cfg pairs = Some t" and m: "0 < bucket_count cfg"
    and "k \<in> fst ` set pairs"
  shows "built_slot (Indexer t) (card (fst ` set pairs)) k < card (fst ` set pairs)"
proof -
  from assms(3) obtain kv where kv: "kv \<in> set pairs" and k: "k = fst kv" by auto
  from Build_pair(8) [OF B m kv] show ?thesis by (simp only: k)
qed

lemma Build_built_slot_bij:
  assumes B: "Build cfg pairs = Some t" and m: "0 < bucket_count cfg"
  shows "bij_betw (built_slot (Indexer t) (card (fst ` set pairs))) (fst ` set pairs)
           {0..<card (fst ` set pairs)}"
proof -
  let ?K = "fst ` set pairs" and ?n = "card (fst ` set pairs)"
  let ?f = "built_slot (Indexer t) ?n"
  have inj: "inj_on ?f ?K"
  proof (rule inj_onI)
    fix k1 k2 assume k1: "k1 \<in> ?K" and k2: "k2 \<in> ?K" and eq: "?f k1 = ?f k2"
    have "k1 = keys t ! ?f k1"
      by (rule Build_key_at_slot [OF B m k1, symmetric])
    also have "\<dots> = keys t ! ?f k2"
      by (simp only: eq)
    also have "\<dots> = k2"
      by (rule Build_key_at_slot [OF B m k2])
    finally show "k1 = k2" .
  qed
  have sub: "?f ` ?K \<subseteq> {0..<?n}"
  proof
    fix s assume "s \<in> ?f ` ?K"
    then obtain k where "k \<in> ?K" and "s = ?f k" ..
    with Build_slot_less [OF B m, of k] show "s \<in> {0..<?n}" by simp
  qed
  have "card (?f ` ?K) = card {0..<?n}"
    using inj by (simp add: card_image)
  with sub have "?f ` ?K = {0..<?n}"
    by (intro card_subset_eq) simp_all
  with inj show ?thesis by (simp add: bij_betw_def)
qed

lemma Build_Get:
  assumes B: "Build cfg pairs = Some t" and m: "0 < bucket_count cfg" "bucket_count cfg < 2 ^ 63"
    and n: "card (fst ` set pairs) < 2 ^ 63" and kv: "kv \<in> set pairs"
  shows "\<exists>s. Indexer_Get (Indexer t) (fst kv) (int (card (fst ` set pairs))) = Inr s \<and>
     unat s = unat ((hasher (fst kv) XOR primary_seed cfg)
                 XOR r (Indexer t) ! selector_of (Indexer t) (fst kv))
              mod card (fst ` set pairs)"
proof -
  let ?c = "Indexer t" and ?n = "card (fst ` set pairs)" and ?k = "fst kv"
  note P = Build_pair [OF B m(1) kv]
  have r: "r ?c \<noteq> []" using P(5) by auto
  have i0: "indices ?c \<noteq> []" using P(1) m(1) by auto
  have il: "length (indices ?c) < 2 ^ 63" using P(1) m(2) by simp
  let ?h = "hasher ?k XOR r ?c ! 0"
  let ?ri = "indices ?c ! (unat ?h mod length (indices ?c))"
  have sel: "unat ?ri = selector_of ?c ?k"
    by (simp add: selector_of_def bucket_of_def)
  have "unat (of_nat (length (r ?c)) :: uint16) = length (r ?c)"
    using P(3) by (simp add: unat_of_nat)
  then have test: "\<not> (of_nat (length (r ?c)) :: uint16) \<le> ?ri"
    using P(5) by (simp add: word_le_nat_alt sel)
  have "0 < ?n" using P(8) by simp
  then have n1: "1 \<le> int ?n" "int ?n < 2 ^ 63" using n by simp_all
  have n0: "(of_int (int ?n) :: uint64) \<noteq> 0"
    using n1 by (rule of_int_len64_neq_0)
  have un: "unat (of_int (int ?n) :: uint64) = ?n"
    using unat_of_int_len64 [of "int ?n"] n1 by simp
  have "Indexer_Get ?c ?k (int ?n) = Inr ((?h XOR r ?c ! unat ?ri) mod of_int (int ?n))"
    using test n0 by (simp add: Indexer_Get_eval [OF r i0 il] Let_def)
  moreover have "unat ((?h XOR r ?c ! unat ?ri) mod (of_int (int ?n) :: uint64)) =
      unat ((hasher ?k XOR primary_seed cfg) XOR r ?c ! selector_of ?c ?k) mod ?n"
    by (simp only: unat_mod un sel) (simp only: P(2))
  ultimately show ?thesis by blast
qed

lemma Build_lookup_slot:
  assumes B: "Build cfg pairs = Some t" and m: "0 < bucket_count cfg" "bucket_count cfg < 2 ^ 63"
    and n: "card (fst ` set pairs) < 2 ^ 63" and kv: "kv \<in> set pairs"
  shows "Indexer_Get (Indexer t) (fst kv) (int (card (fst ` set pairs))) =
       Inr (of_nat (built_slot (Indexer t) (card (fst ` set pairs)) (fst kv)))"
    and "lookup_slot (Indexer t) (card (fst ` set pairs)) (fst kv) =
       built_slot (Indexer t) (card (fst ` set pairs)) (fst kv)"
proof -
  let ?n = "card (fst ` set pairs)"
  from Build_Get [OF B m n kv] obtain s
    where g: "Indexer_Get (Indexer t) (fst kv) (int ?n) = Inr s"
      and s: "unat s = unat ((hasher (fst kv) XOR primary_seed cfg)
                 XOR r (Indexer t) ! selector_of (Indexer t) (fst kv)) mod ?n"
    by blast
  have b: "unat s = built_slot (Indexer t) ?n (fst kv)"
    by (simp add: s built_slot_def slot_of_def Build_pair(2) [OF B m(1) kv])
  then have "of_nat (built_slot (Indexer t) ?n (fst kv)) = s"
    by (simp flip: b)
  with g show "Indexer_Get (Indexer t) (fst kv) (int ?n) =
       Inr (of_nat (built_slot (Indexer t) ?n (fst kv)))" by simp
  from g b show "lookup_slot (Indexer t) ?n (fst kv) = built_slot (Indexer t) ?n (fst kv)"
    by (simp add: lookup_slot_def)
qed

text \<open>
  The table answers \<open>Get\<close> for every pair it was built from, which is what
  \<open>TestCHDBuilder\<close> asserts of the builder.
\<close>

lemma Build_answers_Get:
  assumes B: "Build cfg pairs = Some t" and m: "0 < bucket_count cfg" "bucket_count cfg < 2 ^ 63"
    and n: "length pairs < 2 ^ 63" and kv: "kv \<in> set pairs"
  shows "CHD_Get t (fst kv) = Inr (Some (snd kv))"
proof -
  let ?n = "card (fst ` set pairs)"
  have "?n \<le> card (set pairs)" by (rule card_image_le) simp
  also have "\<dots> \<le> length pairs" by (rule card_length)
  finally have n': "?n < 2 ^ 63" using n by simp
  note P = Build_pair [OF B m(1) kv]
  have lk: "length (keys t) = ?n" by (rule P(6))
  note g = Build_lookup_slot(1) [OF B m n' kv]
  have u: "unat (of_nat (built_slot (Indexer t) ?n (fst kv)) :: uint64) =
      built_slot (Indexer t) ?n (fst kv)"
    using P(8) n' by (intro unat_of_nat_len64) simp
  show ?thesis
    using P(8) by (simp add: CHD_Get_def g u index_checked_def lk P(7) P(9) P(10)
        bytes_Compare_eq)
qed

text \<open>
  Claim C2.  For every table that the builder builds, over the \<open>n\<close> distinct keys
  added, the table has \<open>n\<close> key slots and \<open>Indexer.Get(k, n)\<close> restricted to the build
  set is a bijection onto \<open>{0, ..., n-1}\<close>: it fails for no key of the build set, sends
  no two of them to one slot, and leaves no slot out.
\<close>

theorem Build_perfect_minimal:
  assumes "Build cfg pairs = Some t"
    and "0 < bucket_count cfg" and "bucket_count cfg < 2 ^ 63" and "length pairs < 2 ^ 63"
  shows "length (keys t) = card (fst ` set pairs) \<and>
     bij_betw (lookup_slot (Indexer t) (card (fst ` set pairs))) (fst ` set pairs)
       {0..<card (fst ` set pairs)}"
proof (intro conjI)
  show "length (keys t) = card (fst ` set pairs)"
    using assms(1,2) by (rule Build_length_keys)
  have bij: "bij_betw (built_slot (Indexer t) (card (fst ` set pairs))) (fst ` set pairs)
       {0..<card (fst ` set pairs)}"
    using assms(1,2) by (rule Build_built_slot_bij)
  have "card (fst ` set pairs) \<le> card (set pairs)"
    by (rule card_image_le) simp
  also have "\<dots> \<le> length pairs"
    by (rule card_length)
  finally have n: "card (fst ` set pairs) < 2 ^ 63"
    using assms(4) by simp
  have "lookup_slot (Indexer t) (card (fst ` set pairs)) k =
      built_slot (Indexer t) (card (fst ` set pairs)) k" if "k \<in> fst ` set pairs" for k
  proof -
    from that obtain kv where kv: "kv \<in> set pairs" and k: "k = fst kv" by auto
    from Build_lookup_slot(2) [OF assms(1-3) n kv] show ?thesis by (simp only: k)
  qed
  then have "bij_betw (lookup_slot (Indexer t) (card (fst ` set pairs))) (fst ` set pairs)
          {0..<card (fst ` set pairs)} =
      bij_betw (built_slot (Indexer t) (card (fst ` set pairs))) (fst ` set pairs)
          {0..<card (fst ` set pairs)}"
    by (rule bij_betw_cong)
  with bij show "bij_betw (lookup_slot (Indexer t) (card (fst ` set pairs))) (fst ` set pairs)
          {0..<card (fst ` set pairs)}"
    by simp
qed

lemma Build_example:
  "Build \<lparr>bucket_count = 1, primary_seed = 2, fresh_seeds = [1, 3]\<rparr>
     [([97], [1]), ([98], [2]), ([99], [3])] =
   Some \<lparr>Indexer = \<lparr>r = [2, 1, 3], indices = [2]\<rparr>, keys = [[98], [99], [97]],
          values = [[2], [3], [1]]\<rparr>"
  by (simp add: Build_def buckets_by_size_def place_bucket_def fits_def slot_of_def
      bucket_of_def hasher_def slot_key_def slot_value_def)

lemma Build_example_Get:
  "Indexer_Get \<lparr>r = [2, 1, 3], indices = [2]\<rparr> [97] 3 = Inr 2 \<and>
   Indexer_Get \<lparr>r = [2, 1, 3], indices = [2]\<rparr> [98] 3 = Inr 0 \<and>
   Indexer_Get \<lparr>r = [2, 1, 3], indices = [2]\<rparr> [99] 3 = Inr 1"
  by (simp add: Indexer_Get_def index_checked_def hasher_def word_le_nat_alt)

theorem Build_perfect_minimal_witness:
  "Build \<lparr>bucket_count = 1, primary_seed = 2, fresh_seeds = [1, 3]\<rparr>
     [([97], [1]), ([98], [2]), ([99], [3])] =
   Some \<lparr>Indexer = \<lparr>r = [2, 1, 3], indices = [2]\<rparr>, keys = [[98], [99], [97]],
          values = [[2], [3], [1]]\<rparr> \<and>
   0 < bucket_count \<lparr>bucket_count = 1, primary_seed = 2, fresh_seeds = [1, 3]\<rparr> \<and>
   Indexer_Get \<lparr>r = [2, 1, 3], indices = [2]\<rparr> [97] 3 = Inr 2 \<and>
   Indexer_Get \<lparr>r = [2, 1, 3], indices = [2]\<rparr> [98] 3 = Inr 0 \<and>
   Indexer_Get \<lparr>r = [2, 1, 3], indices = [2]\<rparr> [99] 3 = Inr 1 \<and>
   bij_betw (lookup_slot \<lparr>r = [2, 1, 3], indices = [2]\<rparr> 3) {[97], [98], [99]} {0..<3}"
proof -
  let ?cfg = "\<lparr>bucket_count = 1, primary_seed = 2, fresh_seeds = [1, 3]\<rparr>"
  let ?pairs = "[([97], [1]), ([98], [2]), ([99 :: byte], [3 :: byte])]"
  let ?t = "\<lparr>Indexer = \<lparr>r = [2, 1, 3], indices = [2]\<rparr>, keys = [[98], [99], [97]],
          values = [[2], [3], [1]]\<rparr>"
  have h: "0 < bucket_count ?cfg" "bucket_count ?cfg < 2 ^ 63" "length ?pairs < 2 ^ 63"
    by simp_all
  have K: "fst ` set ?pairs = {[97], [98], [99]}"
    by simp
  have n: "card {[97], [98], [99 :: byte]} = 3"
    by simp
  from Build_perfect_minimal [OF Build_example h]
  have "bij_betw (lookup_slot (Indexer ?t) (card (fst ` set ?pairs))) (fst ` set ?pairs)
          {0..<card (fst ` set ?pairs)}"
    by (rule conjunct2)
  then have "bij_betw (lookup_slot \<lparr>r = [2, 1, 3], indices = [2]\<rparr> 3) {[97], [98], [99]} {0..<3}"
    by (simp only: K n CHD.simps)
  with Build_example h(1) Build_example_Get show ?thesis
    by (intro conjI) (elim conjE, assumption)+
qed

end
